theory Spec2Isabelle
  imports Main "HOL-Library.Word"
begin

unbundle bit_operations_syntax

section \<open>Data model\<close>

type_synonym byte = "8 word"

text \<open>
  The exceptions of \<^verbatim>\<open>script.cc\<close>, one constructor per \<^verbatim>\<open>throw\<close>:
  \<^item> \<open>InvalidMasterKey\<close>: "Invalid private key generated from seed" (\<^verbatim>\<open>from_seed\<close>);
  \<^item> \<open>PublicKeyFailure\<close>: "Failed to create public key" (the \<^verbatim>\<open>HDKey\<close> constructor);
  \<^item> \<open>InvalidChildKey\<close>: "Invalid child key - retry with next index" (\<^verbatim>\<open>derive_child\<close>);
  \<^item> \<open>InvalidBase58Character\<close>: "Invalid base58 character" (\<^verbatim>\<open>decode_base58\<close>);
  \<^item> \<open>InvalidLength\<close>: "Invalid address length after decode" (\<^verbatim>\<open>decode_base58\<close>).
  None of them is caught, so each ends the process through \<^verbatim>\<open>std::terminate\<close>. A failed
  \<^verbatim>\<open>assert\<close> ends it through \<^verbatim>\<open>abort\<close> and is the constructor \<open>AssertionFailure\<close>
  (the build line in the source does not define \<^verbatim>\<open>NDEBUG\<close>).
\<close>

datatype error =
    InvalidMasterKey
  | PublicKeyFailure
  | InvalidChildKey
  | InvalidBase58Character
  | InvalidLength
  | AssertionFailure

section \<open>Base58 codec\<close>

definition BASE58_CHARS :: string where
  "BASE58_CHARS = ''123456789ABCDEFGHJKLMNPQRSTUVWXYZabcdefghijkmnopqrstuvwxyz''"

text \<open>
  C's \<^verbatim>\<open>strchr(s, c)\<close> on a NUL-terminated string: the offset of the first occurrence of
  \<open>c\<close>, where the terminating NUL counts as part of the string; \<open>None\<close> is the null pointer.
\<close>

fun strchr :: "string \<Rightarrow> char \<Rightarrow> nat option" where
  "strchr [] c = (if c = CHR 0x00 then Some 0 else None)"
| "strchr (x # xs) c = (if x = c then Some 0 else map_option Suc (strchr xs c))"

subsection \<open>\<^verbatim>\<open>encode_base58\<close>\<close>

text \<open>\<^verbatim>\<open>while (zeros < input.size() && input[zeros] == 0) zeros++;\<close>\<close>

function count_zeros :: "byte list \<Rightarrow> nat \<Rightarrow> nat" where
  "count_zeros input zeros =
     (if zeros < length input \<and> input ! zeros = 0 then count_zeros input (Suc zeros) else zeros)"
  by pat_completeness auto
termination
  by (relation "measure (\<lambda>(input, zeros). length input - zeros)") auto

declare count_zeros.simps [simp del]

text \<open>
  The loop over \<open>j\<close>: \<^verbatim>\<open>carry += (uint16_t)b[j] << 8; b[j] = carry % 58; carry /= 58;\<close>
  with \<open>carry\<close> a \<^verbatim>\<open>uint16_t\<close> and \<open>b\<close> a vector of \<^verbatim>\<open>uint8_t\<close>. It returns the updated
  digits and the carry left after the last digit.
\<close>

fun encode_carry :: "16 word \<Rightarrow> byte list \<Rightarrow> byte list \<times> 16 word" where
  "encode_carry carry [] = ([], carry)"
| "encode_carry carry (bj # b) =
     (let carry1 = carry + push_bit 8 (ucast bj :: 16 word);
          (b', carry') = encode_carry (carry1 div 58) b
      in ((ucast (carry1 mod 58) :: byte) # b', carry'))"

text \<open>\<^verbatim>\<open>while (carry > 0) { b.push_back(carry % 58); carry /= 58; }\<close>\<close>

function encode_push :: "16 word \<Rightarrow> byte list \<Rightarrow> byte list" where
  "encode_push carry b =
     (if carry > 0 then encode_push (carry div 58) (b @ [ucast (carry mod 58)]) else b)"
  by pat_completeness auto
termination
proof (relation "measure (\<lambda>(carry, b). unat carry)")
  show "wf (measure (\<lambda>(carry :: 16 word, b :: byte list). unat carry))"
    by simp
next
  fix carry :: "16 word" and b :: "byte list"
  assume "0 < carry"
  then have "0 < unat carry"
    by (simp add: word_greater_zero_iff unat_gt_0)
  then have "unat carry div 58 < unat carry"
    by simp
  then show "((carry div 58, b @ [ucast (carry mod 58)]), (carry, b))
      \<in> measure (\<lambda>(carry, b). unat carry)"
    by (simp add: unat_div)
qed

declare encode_push.simps [simp del]

text \<open>The loop over the input bytes from index \<open>zeros\<close> on.\<close>

fun encode_digits :: "byte list \<Rightarrow> byte list \<Rightarrow> byte list" where
  "encode_digits [] b = b"
| "encode_digits (x # input) b =
     (let (b', carry) = encode_carry (ucast x) b
      in encode_digits input (encode_push carry b'))"

definition encode_base58 :: "byte list \<Rightarrow> string" where
  "encode_base58 input =
     (let zeros = count_zeros input 0;
          b = encode_digits (drop zeros input) []
      in replicate zeros (CHR ''1'') @ map (\<lambda>d. BASE58_CHARS ! unat d) (rev b))"

subsection \<open>\<^verbatim>\<open>decode_base58\<close>\<close>

text \<open>
  The loop over \<open>i\<close>: \<^verbatim>\<open>uint32_t carry = (uint32_t)bn[i] * 58 + digit; bn[i] = carry & 0xff;
  digit = carry >> 8;\<close> with \<open>bn\<close> a vector of \<^verbatim>\<open>uint16_t\<close> and \<open>digit\<close> a \<^verbatim>\<open>uint16_t\<close>.
\<close>

fun decode_carry :: "16 word \<Rightarrow> 16 word list \<Rightarrow> 16 word list \<times> 16 word" where
  "decode_carry digit [] = ([], digit)"
| "decode_carry digit (x # bn) =
     (let carry = (ucast x :: 32 word) * 58 + ucast digit;
          (bn', digit') = decode_carry (ucast (drop_bit 8 carry)) bn
      in ((ucast (carry AND 0xff) :: 16 word) # bn', digit'))"

text \<open>The loop over the characters of the input; it throws at the first character that
  \<^verbatim>\<open>strchr\<close> does not find.\<close>

fun decode_digits :: "string \<Rightarrow> 16 word list \<Rightarrow> error + 16 word list" where
  "decode_digits [] bn = Inr bn"
| "decode_digits (c # input) bn =
     (case strchr BASE58_CHARS c of
        None \<Rightarrow> Inl InvalidBase58Character
      | Some pos \<Rightarrow>
          (let (bn', digit) = decode_carry (of_nat pos) bn
           in decode_digits input (if digit > 0 then bn' @ [digit] else bn')))"

text \<open>\<^verbatim>\<open>for (i = 0; i < input.length() && input[i] == '1' && pos < result.size(); i++)
  result[pos++] = 0;\<close>\<close>

function fill_zeros :: "string \<Rightarrow> nat \<Rightarrow> nat \<Rightarrow> byte list \<Rightarrow> nat \<times> byte list" where
  "fill_zeros input i pos result =
     (if i < length input \<and> input ! i = CHR ''1'' \<and> pos < length result
      then fill_zeros input (Suc i) (Suc pos) (result[pos := 0])
      else (pos, result))"
  by pat_completeness auto
termination
  by (relation "measure (\<lambda>(input, i, pos, result). length input - i)") auto

declare fill_zeros.simps [simp del]

text \<open>\<^verbatim>\<open>for (it = bn.rbegin(); it != bn.rend() && pos < result.size(); ++it)
  result[pos++] = *it;\<close> over the reversed vector; the store narrows to \<^verbatim>\<open>uint8_t\<close>.\<close>

fun fill_bytes :: "16 word list \<Rightarrow> nat \<Rightarrow> byte list \<Rightarrow> nat \<times> byte list" where
  "fill_bytes [] pos result = (pos, result)"
| "fill_bytes (x # it) pos result =
     (if pos < length result then fill_bytes it (Suc pos) (result[pos := ucast x])
      else (pos, result))"

definition decode_base58 :: "string \<Rightarrow> error + byte list" where
  "decode_base58 input =
     (case decode_digits input [] of
        Inl e \<Rightarrow> Inl e
      | Inr bn \<Rightarrow>
          (let result = replicate 25 0;
               (pos, result) = fill_zeros input 0 0 result;
               (pos, result) = fill_bytes (rev bn) pos result
           in if pos \<noteq> length result then Inl InvalidLength else Inr result))"

section \<open>Positional notation\<close>

text \<open>
  The number that a list of digits denotes in a base, least significant digit first. The
  codec's digit vectors \<open>b\<close> and \<open>bn\<close> are little-endian; a byte array read as a
  big-endian number is \<open>le_val 256\<close> of its reversal.
\<close>

fun le_val :: "nat \<Rightarrow> nat list \<Rightarrow> nat" where
  "le_val base [] = 0"
| "le_val base (d # ds) = d + base * le_val base ds"

text \<open>A digit list is normal when its most significant digit is not zero.\<close>

definition normal :: "nat list \<Rightarrow> bool" where
  "normal ds \<longleftrightarrow> ds = [] \<or> last ds \<noteq> 0"



section \<open>The cryptographic libraries\<close>

text \<open>
  OpenSSL and libsecp256k1 are linked in, not part of the program. Their functions are the
  fields of a record that every operation of the program takes as a parameter; a field
  returns the bytes that the library function writes into the caller's buffer.
  \<^item> \<open>secp256k1_context_create\<close>: whether context creation returns a non-null context;
  \<^item> \<open>secp256k1_ec_seckey_verify\<close>: the return value, for a 32-byte secret key;
  \<^item> \<open>secp256k1_ec_pubkey_create\<close>: \<open>None\<close> for return value 0, otherwise the opaque
    \<^verbatim>\<open>secp256k1_pubkey\<close>;
  \<^item> \<open>secp256k1_ec_pubkey_serialize\<close>: the bytes written with \<^verbatim>\<open>SECP256K1_EC_COMPRESSED\<close>
    (their number is the \<^verbatim>\<open>pubkey_len\<close> handed back);
  \<^item> \<open>secp256k1_ec_seckey_tweak_add\<close>: \<open>None\<close> for return value 0, otherwise the tweaked
    secret key that replaces the first argument;
  \<^item> \<open>HMAC_SHA512\<close>: \<^verbatim>\<open>HMAC_Init_ex\<close> with \<^verbatim>\<open>EVP_sha512\<close>, update and final, for a key and a
    message;
  \<^item> \<open>SHA256\<close>, \<open>RIPEMD160\<close>: init, update and final of the digest;
  \<^item> \<open>PKCS5_PBKDF2_HMAC_SHA512\<close>: \<^verbatim>\<open>PKCS5_PBKDF2_HMAC\<close> with \<^verbatim>\<open>EVP_sha512\<close>, for a password,
    a salt, an iteration count and an output length.
\<close>

record crypto =
  secp256k1_context_create :: bool
  secp256k1_ec_seckey_verify :: "byte list \<Rightarrow> bool"
  secp256k1_ec_pubkey_create :: "byte list \<Rightarrow> byte list option"
  secp256k1_ec_pubkey_serialize :: "byte list \<Rightarrow> byte list"
  secp256k1_ec_seckey_tweak_add :: "byte list \<Rightarrow> byte list \<Rightarrow> byte list option"
  HMAC_SHA512 :: "byte list \<Rightarrow> byte list \<Rightarrow> byte list"
  SHA256 :: "byte list \<Rightarrow> byte list"
  RIPEMD160 :: "byte list \<Rightarrow> byte list"
  PKCS5_PBKDF2_HMAC_SHA512 :: "string \<Rightarrow> string \<Rightarrow> nat \<Rightarrow> nat \<Rightarrow> byte list"

text \<open>
  Writing a byte sequence into a buffer from position \<open>pos\<close> on: what a library function
  does with the caller's buffer, and what \<^verbatim>\<open>std::copy(first, last, result.begin() + pos)\<close>
  does with the fixed-size array. A write past the end of the buffer is undefined in C++;
  here it leaves the buffer as it is.
\<close>

fun copy :: "byte list \<Rightarrow> byte list \<Rightarrow> nat \<Rightarrow> byte list" where
  "copy [] result pos = result"
| "copy (x # src) result pos = copy src (result[pos := x]) (Suc pos)"

subsection \<open>Hash helper functions\<close>

text \<open>
  Each helper allocates a zeroed output vector of the digest's size (64, 32 and 20 bytes,
  and 64 bytes for the seed), lets the library write into it and returns it.
\<close>

definition hmac_sha512 :: "crypto \<Rightarrow> byte list \<Rightarrow> byte list \<Rightarrow> byte list" where
  "hmac_sha512 lib key data =
     (let output = replicate 64 0 in copy (HMAC_SHA512 lib key data) output 0)"

definition sha256 :: "crypto \<Rightarrow> byte list \<Rightarrow> byte list" where
  "sha256 lib input = (let output = replicate 32 0 in copy (SHA256 lib input) output 0)"

definition hash160 :: "crypto \<Rightarrow> byte list \<Rightarrow> byte list" where
  "hash160 lib input =
     (let sha = sha256 lib input;
          output = replicate 20 0
      in copy (RIPEMD160 lib sha) output 0)"

definition seed_from_phrase :: "crypto \<Rightarrow> string \<Rightarrow> byte list" where
  "seed_from_phrase lib mnemonic =
     (let salt = ''mnemonic'';
          seed = replicate 64 0
      in copy (PKCS5_PBKDF2_HMAC_SHA512 lib mnemonic salt 2048 (length seed)) seed 0)"

section \<open>\<^verbatim>\<open>HDKey\<close>\<close>

record HDKey =
  private_key :: "byte list"
  chain_code :: "byte list"
  public_key :: "byte list"

text \<open>
  The constructor \<^verbatim>\<open>HDKey(private_key_, chain_code_)\<close>: it creates the public key, throws if
  the library refuses, serialises it in compressed form into the 33 bytes of
  \<^verbatim>\<open>public_key\<close> and asserts that 33 bytes were written.
\<close>

definition HDKey_init :: "crypto \<Rightarrow> byte list \<Rightarrow> byte list \<Rightarrow> error + HDKey" where
  "HDKey_init lib private_key' chain_code' =
     (case secp256k1_ec_pubkey_create lib private_key' of
        None \<Rightarrow> Inl PublicKeyFailure
      | Some pubkey \<Rightarrow>
          (let serialized = secp256k1_ec_pubkey_serialize lib pubkey;
               public_key = copy serialized (replicate 33 0) 0;
               pubkey_len = length serialized
           in if pubkey_len \<noteq> 33 then Inl AssertionFailure
              else Inr \<lparr>private_key = private_key', chain_code = chain_code',
                        public_key = public_key\<rparr>))"

definition from_seed :: "crypto \<Rightarrow> byte list \<Rightarrow> error + HDKey" where
  "from_seed lib seed =
     (let hmac = hmac_sha512 lib (map (\<lambda>c. of_nat (of_char c)) ''Bitcoin seed'') seed;
          private_key = take 32 hmac;
          chain_code = drop 32 hmac
      in if \<not> secp256k1_ec_seckey_verify lib private_key then Inl InvalidMasterKey
         else HDKey_init lib private_key chain_code)"

text \<open>The data that \<^verbatim>\<open>derive_child\<close> prepares for the HMAC (its first thirteen lines).\<close>

definition child_data :: "HDKey \<Rightarrow> 32 word \<Rightarrow> byte list" where
  "child_data key index =
     (let data = (if index \<ge> 0x80000000 then [0x00] @ private_key key else public_key key)
      in data @ [ucast (drop_bit 24 index AND 0xFF), ucast (drop_bit 16 index AND 0xFF),
                 ucast (drop_bit 8 index AND 0xFF), ucast (index AND 0xFF)])"

definition derive_child :: "crypto \<Rightarrow> HDKey \<Rightarrow> 32 word \<Rightarrow> error + HDKey" where
  "derive_child lib key index =
     (let data = child_data key index;
          I = hmac_sha512 lib (chain_code key) data;
          I_L = take 32 I;
          I_R = drop 32 I
      in case secp256k1_ec_seckey_tweak_add lib (private_key key) I_L of
           None \<Rightarrow> Inl InvalidChildKey
         | Some child_private_key \<Rightarrow>
             (case HDKey_init lib child_private_key (replicate 32 0) of
                Inl e \<Rightarrow> Inl e
              | Inr child_key \<Rightarrow> Inr (child_key\<lparr>chain_code := I_R\<rparr>)))"

definition get_address :: "crypto \<Rightarrow> HDKey \<Rightarrow> byte list" where
  "get_address lib key =
     (let h160 = hash160 lib (public_key key);
          result = replicate 25 0;
          result = result[0 := 0x00];
          result = copy h160 result 1;
          checksum = sha256 lib (sha256 lib (take 21 result))
      in copy (take 4 checksum) result 21)"

section \<open>The path search\<close>

text \<open>
  \<^verbatim>\<open>for (uint32_t index : path) key = key.derive_child(index);\<close> The first exception ends
  the chain. The chained calls \<^verbatim>\<open>(...).derive_child(j).derive_child(k)\<close> are the same chain.
\<close>

fun derive_path :: "crypto \<Rightarrow> HDKey \<Rightarrow> 32 word list \<Rightarrow> error + HDKey" where
  "derive_path lib key [] = Inr key"
| "derive_path lib key (index # path) =
     (case derive_child lib key index of
        Inl e \<Rightarrow> Inl e
      | Inr child \<Rightarrow> derive_path lib child path)"

text \<open>
  A candidate is what the three inner loops range over: the path prefix, the account \<open>i\<close>
  (absent for the legacy prefix), the change \<open>j\<close> and the address index \<open>k\<close>. The loop
  counters are \<^verbatim>\<open>uint32_t\<close> that stay below 20, so they are natural numbers here and
  are converted where they become derivation indices.
\<close>

type_synonym candidate = "32 word list \<times> nat option \<times> nat \<times> nat"

text \<open>The indices below the family key that the loop body derives for a candidate.\<close>

fun address_indices :: "candidate \<Rightarrow> 32 word list" where
  "address_indices (path, account, j, k) =
     (case account of None \<Rightarrow> [] | Some i \<Rightarrow> [0x80000000 OR of_nat i]) @ [of_nat j, of_nat k]"

text \<open>The numbers that the loop body prints after the mnemonic, each after a \<open>/\<close>.\<close>

fun printed_indices :: "candidate \<Rightarrow> 32 word list" where
  "printed_indices (path, account, j, k) =
     path @ (case account of None \<Rightarrow> [] | Some i \<Rightarrow> [of_nat i]) @ [of_nat j, of_nat k]"

text \<open>
  The observable state of the search: \<open>examined\<close> lists, in order, the candidates whose
  address has been compared with the target (the comparison in the innermost loop), and
  \<open>stdout\<close> the lines printed, each as the mnemonic and the numbers after it.
\<close>

record search_state =
  examined :: "candidate list"
  stdout :: "(string \<times> 32 word list) list"

text \<open>
  The loops return the state and either an exception, \<open>Inr True\<close> for \<^verbatim>\<open>return true\<close> or
  \<open>Inr False\<close> when the loop has run to its end.
\<close>

function loop_k :: "crypto \<Rightarrow> string \<Rightarrow> byte list \<Rightarrow> 32 word list \<Rightarrow> HDKey \<Rightarrow> nat \<Rightarrow> nat
    \<Rightarrow> nat \<Rightarrow> search_state \<Rightarrow> search_state \<times> (error + bool)" where
  "loop_k lib mnemonic target_address path key i j k st =
     (if k < 20 then
        (let is_legacy = (length path = 0);
             c = (path, if is_legacy then None else Some i, j, k)
         in case derive_path lib key (address_indices c) of
              Inl e \<Rightarrow> (st, Inl e)
            | Inr address_key \<Rightarrow>
                (let st' = st\<lparr>examined := examined st @ [c]\<rparr>
                 in if get_address lib address_key = target_address
                    then (st'\<lparr>stdout := stdout st' @ [(mnemonic, printed_indices c)]\<rparr>, Inr True)
                    else loop_k lib mnemonic target_address path key i j (Suc k) st'))
      else (st, Inr False))"
  by pat_completeness auto
termination
  by (relation "measure (\<lambda>(lib, mnemonic, target_address, path, key, i, j, k, st). 20 - k)") auto

declare loop_k.simps [simp del]

function loop_j :: "crypto \<Rightarrow> string \<Rightarrow> byte list \<Rightarrow> 32 word list \<Rightarrow> HDKey \<Rightarrow> nat \<Rightarrow> nat
    \<Rightarrow> search_state \<Rightarrow> search_state \<times> (error + bool)" where
  "loop_j lib mnemonic target_address path key i j st =
     (if j < 2 then
        (case loop_k lib mnemonic target_address path key i j 0 st of
           (st', Inr False) \<Rightarrow> loop_j lib mnemonic target_address path key i (Suc j) st'
         | (st', r) \<Rightarrow> (st', r))
      else (st, Inr False))"
  by pat_completeness auto
termination
  by (relation "measure (\<lambda>(lib, mnemonic, target_address, path, key, i, j, st). 2 - j)") auto

declare loop_j.simps [simp del]

function loop_i :: "crypto \<Rightarrow> string \<Rightarrow> byte list \<Rightarrow> 32 word list \<Rightarrow> HDKey \<Rightarrow> nat
    \<Rightarrow> search_state \<Rightarrow> search_state \<times> (error + bool)" where
  "loop_i lib mnemonic target_address path key i st =
     (let is_legacy = (length path = 0)
      in if i < (if is_legacy then 1 else 20) then
           (case loop_j lib mnemonic target_address path key i 0 st of
              (st', Inr False) \<Rightarrow> loop_i lib mnemonic target_address path key (Suc i) st'
            | (st', r) \<Rightarrow> (st', r))
         else (st, Inr False))"
  by pat_completeness auto
termination
  by (relation "measure (\<lambda>(lib, mnemonic, target_address, path, key, i, st).
        (if length path = 0 then 1 else 20) - i)") auto

declare loop_i.simps [simp del]

fun loop_paths :: "crypto \<Rightarrow> string \<Rightarrow> byte list \<Rightarrow> HDKey \<Rightarrow> 32 word list list
    \<Rightarrow> search_state \<Rightarrow> search_state \<times> (error + bool)" where
  "loop_paths lib mnemonic target_address master_key [] st = (st, Inr False)"
| "loop_paths lib mnemonic target_address master_key (path # paths) st =
     (case derive_path lib master_key path of
        Inl e \<Rightarrow> (st, Inl e)
      | Inr key \<Rightarrow>
          (case loop_i lib mnemonic target_address path key 0 st of
             (st', Inr False) \<Rightarrow> loop_paths lib mnemonic target_address master_key paths st'
           | (st', r) \<Rightarrow> (st', r)))"

definition paths :: "32 word list list" where
  "paths = [[44 OR 0x80000000, 0 OR 0x80000000],
            [49 OR 0x80000000, 0 OR 0x80000000],
            [84 OR 0x80000000, 0 OR 0x80000000],
            []]"

definition check_seed_phrase :: "crypto \<Rightarrow> string \<Rightarrow> byte list
    \<Rightarrow> search_state \<times> (error + bool)" where
  "check_seed_phrase lib mnemonic target_address =
     (let st = \<lparr>examined = [], stdout = []\<rparr>;
          seed = seed_from_phrase lib mnemonic
      in case from_seed lib seed of
           Inl e \<Rightarrow> (st, Inl e)
         | Inr master_key \<Rightarrow> loop_paths lib mnemonic target_address master_key paths st)"

section \<open>\<^verbatim>\<open>main\<close>\<close>

text \<open>
  How the process ends: \<open>Exit n\<close> is \<^verbatim>\<open>return n\<close> from \<^verbatim>\<open>main\<close>, \<open>Abort e\<close> an uncaught
  exception or a failed assertion. \<open>search\<close> is the state of \<^verbatim>\<open>check_seed_phrase\<close>, or
  \<open>None\<close> when the process ends before calling it.
\<close>

datatype exit = Exit int | Abort error

record process =
  status :: exit
  stderr :: "string list"
  search :: "search_state option"

text \<open>The body of \<^verbatim>\<open>main\<close>, with its two string literals as parameters.\<close>

definition main_with :: "crypto \<Rightarrow> string \<Rightarrow> string \<Rightarrow> process" where
  "main_with lib mnemonic target =
     (if \<not> secp256k1_context_create lib
      then \<lparr>status = Exit 1, stderr = [''Failed to create secp256k1 context''], search = None\<rparr>
      else case decode_base58 target of
             Inl e \<Rightarrow> \<lparr>status = Abort e, stderr = [], search = None\<rparr>
           | Inr target_bytes \<Rightarrow>
               if \<not> (target_bytes ! 0 = 0)
               then \<lparr>status = Abort AssertionFailure, stderr = [], search = None\<rparr>
               else (case check_seed_phrase lib mnemonic target_bytes of
                       (st, Inl e) \<Rightarrow> \<lparr>status = Abort e, stderr = [], search = Some st\<rparr>
                     | (st, Inr found) \<Rightarrow>
                         \<lparr>status = Exit (if found then 0 else 1), stderr = [],
                          search = Some st\<rparr>))"

definition main :: "crypto \<Rightarrow> process" where
  "main lib =
     main_with lib
       ''rescue account rookie remember dose ice donor organ head eyebrow obvious seven''
       ''1Lme4nrYHRChHwrpVHJTajEXGQjZv72GyS''"


section \<open>Notions of the specification\<close>

subsection \<open>Big-endian byte strings\<close>

text \<open>The number that a byte string denotes, most significant byte first.\<close>

definition be_val :: "byte list \<Rightarrow> nat" where
  "be_val bs = le_val 256 (rev (map unat bs))"

text \<open>The \<open>k\<close> low-order bytes of a number, most significant byte first.\<close>

fun be_bytes :: "nat \<Rightarrow> nat \<Rightarrow> byte list" where
  "be_bytes 0 n = []"
| "be_bytes (Suc k) n = be_bytes k (n div 256) @ [of_nat (n mod 256)]"

subsection \<open>Scalars of secp256k1\<close>

definition curve_order :: nat where
  "curve_order = 0xFFFFFFFFFFFFFFFFFFFFFFFFFFFFFFFEBAAEDCE6AF48A03BBFD25E8CD0364141"

text \<open>
  Modelled from the spec: the validity check of libsecp256k1, which is not part of the
  repository. A valid private scalar is 32 bytes, non-zero and below the curve order.
\<close>

definition valid_scalar :: "byte list \<Rightarrow> bool" where
  "valid_scalar k \<longleftrightarrow> length k = 32 \<and> 0 < be_val k \<and> be_val k < curve_order"

text \<open>
  Modelled from the spec: the scalar-tweak-add of libsecp256k1, which is not part of the
  repository. The result is \<open>(scalar + tweak) mod n\<close> for the curve order \<open>n\<close>; it fails if
  the tweak is not below \<open>n\<close> or the resulting scalar is zero.
\<close>

definition scalar_tweak_add :: "byte list \<Rightarrow> byte list \<Rightarrow> byte list option" where
  "scalar_tweak_add scalar tweak =
     (let s = (be_val scalar + be_val tweak) mod curve_order
      in if curve_order \<le> be_val tweak \<or> s = 0 then None else Some (be_bytes 32 s))"

subsection \<open>The candidate space\<close>

text \<open>A hardened index: the index plus \<open>2\<^sup>3\<^sup>1\<close>.\<close>

definition hardened :: "nat \<Rightarrow> 32 word" where
  "hardened n = of_nat n + 0x80000000"

text \<open>
  The candidates of one family, in order: under a non-empty prefix the accounts 0..19,
  for each the changes 0 and 1, for each the address indices 0..19; under the empty
  (legacy) prefix only the changes and the address indices.
\<close>

definition family :: "32 word list \<Rightarrow> candidate list" where
  "family prefix =
     (if prefix = [] then [(prefix, None, j, k). j \<leftarrow> [0..<2], k \<leftarrow> [0..<20]]
      else [(prefix, Some i, j, k). i \<leftarrow> [0..<20], j \<leftarrow> [0..<2], k \<leftarrow> [0..<20]])"

text \<open>The four families in order: BIP44, BIP49, BIP84, legacy.\<close>

definition candidates :: "candidate list" where
  "candidates =
     family [hardened 44, hardened 0] @ family [hardened 49, hardened 0]
     @ family [hardened 84, hardened 0] @ family []"

text \<open>The full derivation path of a candidate from the master node.\<close>

fun full_path :: "candidate \<Rightarrow> 32 word list" where
  "full_path (prefix, account, j, k) =
     prefix @ (case account of None \<Rightarrow> [] | Some i \<Rightarrow> [hardened i]) @ [of_nat j, of_nat k]"

text \<open>
  Examining a candidate: its node is derived from the master node along the full path and
  the node's address is compared with the target. The result is the exception of a failed
  derivation, or whether the address matches.
\<close>

definition examine :: "crypto \<Rightarrow> HDKey \<Rightarrow> byte list \<Rightarrow> candidate \<Rightarrow> error + bool" where
  "examine lib master target c =
     (case derive_path lib master (full_path c) of
        Inl e \<Rightarrow> Inl e
      | Inr key \<Rightarrow> Inr (get_address lib key = target))"

text \<open>
  The search as the specification words it: the candidates are examined one after the
  other; the first match is printed and ends the search with success, a failed derivation
  ends it with the exception, and the end of the list ends it with failure.
\<close>

fun scan :: "crypto \<Rightarrow> string \<Rightarrow> byte list \<Rightarrow> HDKey \<Rightarrow> candidate list \<Rightarrow> search_state
    \<Rightarrow> search_state \<times> (error + bool)" where
  "scan lib mnemonic target master [] st = (st, Inr False)"
| "scan lib mnemonic target master (c # cs) st =
     (case examine lib master target c of
        Inl e \<Rightarrow> (st, Inl e)
      | Inr True \<Rightarrow>
          (st\<lparr>examined := examined st @ [c],
              stdout := stdout st @ [(mnemonic, printed_indices c)]\<rparr>, Inr True)
      | Inr False \<Rightarrow> scan lib mnemonic target master cs (st\<lparr>examined := examined st @ [c]\<rparr>))"

subsection \<open>Nodes that the program can construct\<close>

text \<open>
  The nodes that \<^verbatim>\<open>from_seed\<close>, the public constructor and any sequence of
  \<^verbatim>\<open>derive_child\<close> calls return.
\<close>

inductive_set nodes :: "crypto \<Rightarrow> HDKey set" for lib :: crypto where
  seed: "from_seed lib seed = Inr key \<Longrightarrow> key \<in> nodes lib"
| init: "HDKey_init lib private_key' chain_code' = Inr key \<Longrightarrow> key \<in> nodes lib"
| child: "key \<in> nodes lib \<Longrightarrow> derive_child lib key index = Inr child \<Longrightarrow> child \<in> nodes lib"

section \<open>Two small libraries for concrete runs\<close>

text \<open>
  \<open>toy\<close> never fails: the public key is the secret key, the tweak is added bytewise,
  and each digest keeps the last byte of its input.
\<close>

definition toy :: crypto where
  "toy = \<lparr>secp256k1_context_create = True,
          secp256k1_ec_seckey_verify = (\<lambda>k. True),
          secp256k1_ec_pubkey_create = (\<lambda>k. Some k),
          secp256k1_ec_pubkey_serialize = (\<lambda>p. 2 # take 32 (p @ replicate 32 0)),
          secp256k1_ec_seckey_tweak_add = (\<lambda>k t. Some (map2 (+) k t)),
          HMAC_SHA512 = (\<lambda>key data. replicate 31 0 @ [last data] @ take 32 (key @ replicate 32 0)),
          SHA256 = (\<lambda>x. replicate 31 0 @ [last x]),
          RIPEMD160 = (\<lambda>x. replicate 19 7 @ [last x]),
          PKCS5_PBKDF2_HMAC_SHA512 =
            (\<lambda>password salt iterations keylen. replicate keylen (of_nat (length password)))\<rparr>"

text \<open>\<open>toy_secp\<close> has the scalar arithmetic of the specification in place of the bytewise one.\<close>

definition toy_secp :: crypto where
  "toy_secp = toy\<lparr>secp256k1_ec_seckey_verify := valid_scalar,
                  secp256k1_ec_pubkey_create := (\<lambda>k. if valid_scalar k then Some k else None),
                  secp256k1_ec_seckey_tweak_add := scalar_tweak_add\<rparr>"

text \<open>The master node that \<open>toy\<close> derives from the mnemonic \<open>abc\<close>.\<close>

definition toy_master :: HDKey where
  "toy_master = \<lparr>private_key = replicate 31 0 @ [3],
     chain_code = [66, 105, 116, 99, 111, 105, 110, 32, 115, 101, 101, 100] @ replicate 20 0,
     public_key = 2 # replicate 31 0 @ [3]\<rparr>"

section \<open>Verification of the Base58 codec\<close>

subsection \<open>Digit lists\<close>

lemma le_val_append:
  "le_val base (xs @ ys) = le_val base xs + base ^ length xs * le_val base ys"
  by (induction xs) (simp_all add: algebra_simps)

lemma le_val_less:
  "\<forall>d\<in>set ds. d < base \<Longrightarrow> le_val base ds < base ^ length ds"
proof (induction ds)
  case Nil
  then show ?case by simp
next
  case (Cons d ds)
  then have "le_val base ds + 1 \<le> base ^ length ds" and "d < base"
    by simp_all
  then have "base * (le_val base ds + 1) \<le> base * base ^ length ds"
    by (intro mult_le_mono2)
  with \<open>d < base\<close> show ?case
    by simp
qed

lemma le_val_ge:
  "ds \<noteq> [] \<Longrightarrow> last ds \<noteq> 0 \<Longrightarrow> base ^ (length ds - 1) \<le> le_val base ds"
proof (induction ds rule: rev_induct)
  case Nil
  then show ?case by simp
next
  case (snoc d ds)
  then have "1 \<le> d" by simp
  then have "base ^ length ds \<le> base ^ length ds * d"
    by simp
  then have "base ^ length ds \<le> le_val base ds + base ^ length ds * d"
    by (rule trans_le_add2)
  then show ?case
    by (simp add: le_val_append)
qed

lemma le_val_last_zero:
  assumes "\<forall>d\<in>set ds. d < base" "ds \<noteq> []" "last ds = 0"
  shows "le_val base ds < base ^ (length ds - 1)"
proof -
  from assms(2) obtain xs x where ds: "ds = xs @ [x]"
    by (meson rev_exhaust)
  with assms have "x = 0" "\<forall>d\<in>set xs. d < base" by simp_all
  then show ?thesis
    using le_val_less [of xs base] by (simp add: ds le_val_append)
qed

lemma le_val_unique:
  assumes "1 < base"
  shows "\<forall>d\<in>set xs. d < base \<Longrightarrow> \<forall>d\<in>set ys. d < base \<Longrightarrow> normal xs \<Longrightarrow> normal ys
    \<Longrightarrow> le_val base xs = le_val base ys \<Longrightarrow> xs = ys"
proof (induction xs arbitrary: ys)
  case Nil
  show ?case
  proof (cases ys)
    case Nil then show ?thesis by simp
  next
    case (Cons y ys')
    with Nil.prems(4) have "ys \<noteq> []" "last ys \<noteq> 0"
      by (simp_all add: normal_def)
    then have "base ^ (length ys - 1) \<le> le_val base ys"
      by (rule le_val_ge)
    with Nil.prems(5) assms show ?thesis by simp
  qed
next
  case (Cons x xs)
  show ?case
  proof (cases ys)
    case Nil
    from Cons.prems(3) have "x # xs \<noteq> []" "last (x # xs) \<noteq> 0"
      by (simp_all add: normal_def)
    then have "base ^ (length (x # xs) - 1) \<le> le_val base (x # xs)"
      by (rule le_val_ge)
    with Cons.prems(5) Nil assms show ?thesis by simp
  next
    case (Cons y ys')
    from Cons.prems(5) have eq: "x + base * le_val base xs = y + base * le_val base ys'"
      by (simp add: Cons)
    from Cons.prems have lt: "x < base" "y < base" by (simp_all add: Cons)
    from eq have "(x + base * le_val base xs) mod base = (y + base * le_val base ys') mod base"
      by simp
    with lt have xy: "x = y" by simp
    from eq have "(x + base * le_val base xs) div base = (y + base * le_val base ys') div base"
      by simp
    with lt have v: "le_val base xs = le_val base ys'" by simp
    from Cons.prems have "normal xs" "normal ys'"
      by (auto simp: normal_def Cons split: if_splits)
    with Cons.IH [of ys'] Cons.prems v have "xs = ys'"
      by (simp add: Cons)
    with xy show ?thesis by (simp add: Cons)
  qed
qed

lemma unat_carry1:
  fixes carry :: "16 word" and bj :: byte
  assumes "unat carry \<le> 255" "unat bj < 58"
  shows "unat (carry + push_bit 8 (ucast bj :: 16 word)) = unat carry + 256 * unat bj"
proof -
  have "unat (ucast bj :: 16 word) = unat bj"
    using assms(2) by (simp add: unsigned_ucast_eq take_bit_nat_eq_self)
  then have "unat (push_bit 8 (ucast bj :: 16 word)) = 256 * unat bj"
    using assms(2) by (simp add: push_bit_eq_mult unat_word_ariths)
  with assms show ?thesis
    by (simp add: unat_word_ariths)
qed

lemma unat_mod58_byte:
  fixes c :: "16 word"
  shows "unat (ucast (c mod 58) :: byte) = unat c mod 58"
proof -
  have "unat (c mod 58) = unat c mod 58"
    by (simp add: unat_mod)
  moreover have "unat c mod 58 < 256"
    by (rule less_trans [of _ 58]) simp_all
  ultimately show ?thesis
    by (simp add: unsigned_ucast_eq take_bit_nat_eq_self)
qed

lemma unat_div58: "unat (c div 58 :: 16 word) = unat c div 58"
  by (simp add: unat_div)

lemma encode_carry_spec:
  assumes "encode_carry carry b = (b', carry')"
    and "unat carry \<le> 255" and "\<forall>d\<in>set b. unat d < 58"
  shows "length b' = length b \<and> (\<forall>d\<in>set b'. unat d < 58) \<and> unat carry' \<le> 255
    \<and> le_val 58 (map unat b') + 58 ^ length b * unat carry'
        = 256 * le_val 58 (map unat b) + unat carry"
  using assms
proof (induction b arbitrary: carry b' carry')
  case Nil
  then show ?case by simp
next
  case (Cons bj b)
  define carry1 where "carry1 = carry + push_bit 8 (ucast bj :: 16 word)"
  obtain b1 c1 where rec: "encode_carry (carry1 div 58) b = (b1, c1)"
    by (cases "encode_carry (carry1 div 58) b")
  from Cons.prems(1) have res: "b' = ucast (carry1 mod 58) # b1" "carry' = c1"
    by (simp_all add: Let_def carry1_def [symmetric] rec)
  from Cons.prems have c1v: "unat carry1 = unat carry + 256 * unat bj"
    unfolding carry1_def by (intro unat_carry1) simp_all
  from Cons.prems have "unat bj < 58" by simp
  with c1v Cons.prems(2) have "unat carry1 div 58 \<le> 255"
    by simp
  then have "unat (carry1 div 58) \<le> 255"
    by (simp add: unat_div58)
  with Cons.IH [OF rec] Cons.prems(3)
  have IH: "length b1 = length b" "\<forall>d\<in>set b1. unat d < 58" "unat c1 \<le> 255"
    "le_val 58 (map unat b1) + 58 ^ length b * unat c1
       = 256 * le_val 58 (map unat b) + unat carry1 div 58"
    by (simp_all add: unat_div58)
  have "unat carry1 mod 58 + 58 * (unat carry1 div 58) = unat carry1"
    by simp
  with IH(4) c1v
  have "unat carry1 mod 58 + 58 * (le_val 58 (map unat b1) + 58 ^ length b * unat c1)
      = 256 * (unat bj + 58 * le_val 58 (map unat b)) + unat carry"
    by (simp add: algebra_simps)
  with IH(1-3) show ?case
    by (simp add: res unat_mod58_byte algebra_simps)
qed


lemma encode_push_spec:
  assumes "\<forall>d\<in>set b. unat d < 58"
  shows "\<exists>ds. encode_push carry b = b @ ds \<and> (\<forall>d\<in>set ds. unat d < 58)
    \<and> le_val 58 (map unat ds) = unat carry \<and> (ds = [] \<longleftrightarrow> carry = 0)
    \<and> (ds \<noteq> [] \<longrightarrow> last ds \<noteq> 0)"
  using assms
proof (induction carry b rule: encode_push.induct)
  case (1 carry b)
  show ?case
  proof (cases "carry > 0")
    case False
    then have "carry = 0"
      by (simp add: word_greater_zero_iff)
    then show ?thesis
      by (simp add: encode_push.simps)
  next
    case True
    let ?d = "ucast (carry mod 58) :: byte"
    have d: "unat ?d = unat carry mod 58"
      by (rule unat_mod58_byte)
    then have "\<forall>d\<in>set (b @ [?d]). unat d < 58"
      using "1.prems" by simp
    from "1.IH" [OF True this] obtain ds where ds:
      "encode_push (carry div 58) (b @ [?d]) = (b @ [?d]) @ ds"
      "\<forall>d\<in>set ds. unat d < 58"
      "le_val 58 (map unat ds) = unat (carry div 58)"
      "ds = [] \<longleftrightarrow> carry div 58 = 0"
      "ds \<noteq> [] \<longrightarrow> last ds \<noteq> 0"
      by blast
    from True have nz: "unat carry \<noteq> 0"
      by (simp add: word_greater_zero_iff unat_eq_zero)
    have last: "last (?d # ds) \<noteq> 0"
    proof (cases "ds = []")
      case False
      with ds(5) show ?thesis by simp
    next
      case True
      with ds(4) have "unat carry div 58 = 0"
        by (metis unat_div58 unat_eq_zero)
      with nz have "unat carry mod 58 \<noteq> 0"
        by (metis div_mult_mod_eq add.left_neutral mult_zero_left)
      with d have "unat ?d \<noteq> 0" by simp
      then have "?d \<noteq> 0" by (simp add: unat_eq_zero)
      with True show ?thesis by simp
    qed
    have "encode_push carry b = b @ (?d # ds)"
      using True ds(1) by (subst encode_push.simps) simp
    moreover have "\<forall>x\<in>set (?d # ds). unat x < 58"
      using ds(2) d by simp
    moreover have "le_val 58 (map unat (?d # ds)) = unat carry"
      using ds(3) d by (simp add: unat_div58)
    moreover have "(?d # ds = []) \<longleftrightarrow> carry = 0"
      using True by (simp add: word_greater_zero_iff)
    ultimately show ?thesis
      using last by blast
  qed
qed


lemma unat_byte_less: "unat (x :: byte) < 256"
proof -
  have "unat x < 2 ^ LENGTH(8)"
    by (rule unsigned_less)
  then show ?thesis by simp
qed

lemma normal_map_unat:
  "normal (map unat b) \<longleftrightarrow> b = [] \<or> last b \<noteq> 0"
  by (cases "b = []") (simp_all add: normal_def last_map unat_eq_zero)

lemma grow_keeps_normal:
  assumes less: "\<forall>d\<in>set ys. d < base"
    and len: "length ys = length xs" and norm: "normal xs" and le: "le_val base xs \<le> le_val base ys"
  shows "normal ys"
proof (cases "xs = []")
  case True
  with len show ?thesis by (simp add: normal_def)
next
  case False
  with norm have "base ^ (length xs - 1) \<le> le_val base xs"
    by (intro le_val_ge) (simp_all add: normal_def)
  with le have ge: "base ^ (length ys - 1) \<le> le_val base ys"
    by (simp add: len)
  from False len have "ys \<noteq> []" by auto
  show ?thesis
  proof (rule ccontr)
    assume "\<not> normal ys"
    with \<open>ys \<noteq> []\<close> have "last ys = 0" by (simp add: normal_def)
    with less \<open>ys \<noteq> []\<close> have "le_val base ys < base ^ (length ys - 1)"
      by (intro le_val_last_zero)
    with ge show False by simp
  qed
qed

lemma encode_step:
  fixes x :: byte
  assumes carry: "encode_carry (ucast x) b = (b', carry)"
    and less: "\<forall>d\<in>set b. unat d < 58" and norm: "normal (map unat b)"
  shows "(\<forall>d\<in>set (encode_push carry b'). unat d < 58)
    \<and> normal (map unat (encode_push carry b'))
    \<and> le_val 58 (map unat (encode_push carry b')) = 256 * le_val 58 (map unat b) + unat x"
proof -
  have "unat x < 256"
    by (rule unat_byte_less)
  moreover from this have "unat (ucast x :: 16 word) = unat x"
    by (simp add: unsigned_ucast_eq take_bit_nat_eq_self)
  ultimately have x: "unat (ucast x :: 16 word) \<le> 255" "unat (ucast x :: 16 word) = unat x"
    by simp_all
  from encode_carry_spec [OF carry x(1) less]
  have b': "length b' = length b" "\<forall>d\<in>set b'. unat d < 58" "unat carry \<le> 255"
    "le_val 58 (map unat b') + 58 ^ length b * unat carry = 256 * le_val 58 (map unat b) + unat x"
    by (simp_all add: x(2))
  from encode_push_spec [OF b'(2), of carry] obtain ds where ds:
    "encode_push carry b' = b' @ ds" "\<forall>d\<in>set ds. unat d < 58"
    "le_val 58 (map unat ds) = unat carry" "ds = [] \<longleftrightarrow> carry = 0" "ds \<noteq> [] \<longrightarrow> last ds \<noteq> 0"
    by blast
  have val: "le_val 58 (map unat (b' @ ds)) = 256 * le_val 58 (map unat b) + unat x"
    using b'(4) by (simp add: le_val_append ds(3) b'(1))
  have "normal (map unat (b' @ ds))"
  proof (cases "ds = []")
    case False
    with ds(5) show ?thesis unfolding normal_map_unat by simp
  next
    case True
    with ds(4) b'(4) have "le_val 58 (map unat b) \<le> le_val 58 (map unat b')"
      by simp
    with b'(1,2) norm have "normal (map unat b')"
      by (intro grow_keeps_normal [of "map unat b'" 58 "map unat b"]) simp_all
    with True show ?thesis by simp
  qed
  with val b'(2) ds(2) show ?thesis
    by (auto simp: ds(1))
qed

lemma encode_digits_spec:
  fixes input :: "byte list"
  assumes "\<forall>d\<in>set b. unat d < 58" "normal (map unat b)"
  shows "(\<forall>d\<in>set (encode_digits input b). unat d < 58)
    \<and> normal (map unat (encode_digits input b))
    \<and> le_val 58 (map unat (encode_digits input b))
        = le_val 58 (map unat b) * 256 ^ length input + le_val 256 (rev (map unat input))"
  using assms
proof (induction input arbitrary: b)
  case Nil
  then show ?case by simp
next
  case (Cons x input)
  obtain b' carry where carry: "encode_carry (ucast x) b = (b', carry)"
    by (cases "encode_carry (ucast x) b")
  note step = encode_step [OF carry Cons.prems]
  from Cons.IH [of "encode_push carry b'"] step
  show ?case
    by (simp add: carry le_val_append algebra_simps)
qed

lemma nat_and_255: "(n :: nat) AND 255 = n mod 256"
proof -
  have "(255 :: nat) = mask 8"
    by (simp add: mask_eq_exp_minus_1)
  then have "n AND 255 = take_bit 8 n"
    by (simp add: take_bit_eq_mask)
  then show ?thesis
    by (simp add: take_bit_eq_mod)
qed

lemma unat_decode_carry:
  fixes x digit :: "16 word"
  assumes "unat x < 256" "unat digit \<le> 58"
  shows "unat ((ucast x :: 32 word) * 58 + ucast digit) = unat x * 58 + unat digit"
proof -
  have x: "unat (ucast x :: 32 word) = unat x"
    using assms(1) by (simp add: unsigned_ucast_eq take_bit_nat_eq_self)
  have d: "unat (ucast digit :: 32 word) = unat digit"
    using assms(2) by (simp add: unsigned_ucast_eq take_bit_nat_eq_self)
  from assms have "unat x * 58 + unat digit < 4294967296"
    by simp
  then show ?thesis
    by (simp add: unat_word_ariths x d)
qed

lemma unat_low_byte:
  fixes carry :: "32 word"
  shows "unat (ucast (carry AND 0xff) :: 16 word) = unat carry mod 256"
proof -
  have "unat (carry AND 0xff) = unat carry mod 256"
    by (simp add: unsigned_and_eq nat_and_255)
  moreover have "unat carry mod 256 < 65536"
    by (rule less_trans [of _ 256]) simp_all
  ultimately show ?thesis
    by (simp add: unsigned_ucast_eq take_bit_nat_eq_self)
qed

lemma unat_high_bytes:
  fixes carry :: "32 word"
  assumes "unat carry < 16777216"
  shows "unat (ucast (drop_bit 8 carry) :: 16 word) = unat carry div 256"
proof -
  have "unat (drop_bit 8 carry) = unat carry div 256"
    by (simp add: drop_bit_eq_div unat_div)
  moreover from assms have "unat carry div 256 < 65536"
    by simp
  ultimately show ?thesis
    by (simp add: unsigned_ucast_eq take_bit_nat_eq_self)
qed

lemma decode_carry_spec:
  assumes "decode_carry digit bn = (bn', digit')"
    and "unat digit \<le> 58" and "\<forall>d\<in>set bn. unat d < 256"
  shows "length bn' = length bn \<and> (\<forall>d\<in>set bn'. unat d < 256) \<and> unat digit' \<le> 58
    \<and> le_val 256 (map unat bn') + 256 ^ length bn * unat digit'
        = 58 * le_val 256 (map unat bn) + unat digit"
  using assms
proof (induction bn arbitrary: digit bn' digit')
  case Nil
  then show ?case by simp
next
  case (Cons x bn)
  define carry where "carry = (ucast x :: 32 word) * 58 + ucast digit"
  obtain bn1 d1 where rec: "decode_carry (ucast (drop_bit 8 carry)) bn = (bn1, d1)"
    by (cases "decode_carry (ucast (drop_bit 8 carry)) bn")
  from Cons.prems(1) have res: "bn' = ucast (carry AND 0xff) # bn1" "digit' = d1"
    by (simp_all add: Let_def carry_def [symmetric] rec)
  from Cons.prems have x: "unat x < 256" by simp
  with Cons.prems(2) have cv: "unat carry = unat x * 58 + unat digit"
    unfolding carry_def by (intro unat_decode_carry)
  with x Cons.prems(2) have small: "unat carry < 16777216" by simp
  from cv x Cons.prems(2) have "unat carry div 256 \<le> 58" by simp
  with small have hi: "unat (ucast (drop_bit 8 carry) :: 16 word) = unat carry div 256"
    "unat (ucast (drop_bit 8 carry) :: 16 word) \<le> 58"
    by (simp_all add: unat_high_bytes)
  from Cons.IH [OF rec hi(2)] Cons.prems(3)
  have IH: "length bn1 = length bn" "\<forall>d\<in>set bn1. unat d < 256" "unat d1 \<le> 58"
    "le_val 256 (map unat bn1) + 256 ^ length bn * unat d1
       = 58 * le_val 256 (map unat bn) + unat carry div 256"
    by (simp_all add: hi(1))
  have "unat carry mod 256 + 256 * (unat carry div 256) = unat carry"
    by simp
  with IH(4) cv
  have "unat carry mod 256 + 256 * (le_val 256 (map unat bn1) + 256 ^ length bn * unat d1)
      = 58 * (unat x + 256 * le_val 256 (map unat bn)) + unat digit"
    by (simp add: algebra_simps)
  with IH(1-3) show ?case
    by (simp add: res unat_low_byte algebra_simps)
qed

lemma decode_step:
  assumes carry: "decode_carry digit bn = (bn', digit')"
    and digit: "unat digit \<le> 58"
    and less: "\<forall>d\<in>set bn. unat d < 256" and norm: "normal (map unat bn)"
  shows "(\<forall>d\<in>set (if digit' > 0 then bn' @ [digit'] else bn'). unat d < 256)
    \<and> normal (map unat (if digit' > 0 then bn' @ [digit'] else bn'))
    \<and> le_val 256 (map unat (if digit' > 0 then bn' @ [digit'] else bn'))
        = 58 * le_val 256 (map unat bn) + unat digit"
proof -
  from decode_carry_spec [OF carry digit less]
  have bn': "length bn' = length bn" "\<forall>d\<in>set bn'. unat d < 256" "unat digit' \<le> 58"
    "le_val 256 (map unat bn') + 256 ^ length bn * unat digit'
       = 58 * le_val 256 (map unat bn) + unat digit"
    by simp_all
  show ?thesis
  proof (cases "digit' > 0")
    case True
    then have "digit' \<noteq> 0" by (simp add: word_greater_zero_iff)
    then have "normal (map unat (bn' @ [digit']))"
      unfolding normal_map_unat by simp
    with True bn' show ?thesis
      by (simp add: le_val_append)
  next
    case False
    then have z: "unat digit' = 0" by (simp add: word_greater_zero_iff)
    with bn'(4) have "le_val 256 (map unat bn) \<le> le_val 256 (map unat bn')"
      by simp
    with bn'(1,2) norm have "normal (map unat bn')"
      by (intro grow_keeps_normal [of "map unat bn'" 256 "map unat bn"]) simp_all
    with False bn' z show ?thesis
      by simp
  qed
qed

lemma strchr_le_length: "strchr s c = Some p \<Longrightarrow> p \<le> length s"
  by (induction s arbitrary: p) (auto split: if_splits)

lemma strchr_nth:
  "distinct s \<Longrightarrow> i < length s \<Longrightarrow> strchr s (s ! i) = Some i"
proof (induction s arbitrary: i)
  case Nil
  then show ?case by simp
next
  case (Cons x s)
  show ?case
  proof (cases i)
    case 0
    then show ?thesis by simp
  next
    case (Suc j)
    with Cons.prems have "j < length s" "s ! j \<noteq> x" "distinct s"
      by auto
    with Cons.IH [of j] show ?thesis
      by (simp add: Suc)
  qed
qed

lemma strchr_None_iff: "strchr s c = None \<longleftrightarrow> c \<notin> set s \<and> c \<noteq> CHR 0x00"
  by (induction s) auto

lemma length_BASE58_CHARS: "length BASE58_CHARS = 58"
  by (simp add: BASE58_CHARS_def)

lemma distinct_BASE58_CHARS: "distinct BASE58_CHARS"
  by (simp add: BASE58_CHARS_def)

lemma strchr_BASE58_nth: "i < 58 \<Longrightarrow> strchr BASE58_CHARS (BASE58_CHARS ! i) = Some i"
  by (simp add: strchr_nth distinct_BASE58_CHARS length_BASE58_CHARS)

lemma strchr_BASE58_le: "strchr BASE58_CHARS c = Some p \<Longrightarrow> p \<le> 58"
  using strchr_le_length [of BASE58_CHARS c p] by (simp add: length_BASE58_CHARS)

lemma BASE58_one: "BASE58_CHARS ! 0 = CHR ''1''"
  by (simp add: BASE58_CHARS_def)

lemma BASE58_nth_one_iff:
  assumes "i < 58"
  shows "BASE58_CHARS ! i = CHR ''1'' \<longleftrightarrow> i = 0"
proof
  assume "BASE58_CHARS ! i = CHR ''1''"
  then have "strchr BASE58_CHARS (BASE58_CHARS ! i) = strchr BASE58_CHARS (BASE58_CHARS ! 0)"
    by (simp add: BASE58_one)
  with assms show "i = 0"
    by (simp add: strchr_BASE58_nth)
qed (simp add: BASE58_one)

lemma unat_of_nat_digit: "pos \<le> 58 \<Longrightarrow> unat (of_nat pos :: 16 word) = pos"
  by (simp add: unat_of_nat)

lemma decode_digits_spec:
  assumes "decode_digits input bn = Inr r"
    and "\<forall>d\<in>set bn. unat d < 256" and "normal (map unat bn)"
  shows "(\<forall>d\<in>set r. unat d < 256) \<and> normal (map unat r)
    \<and> le_val 256 (map unat r)
        = le_val 256 (map unat bn) * 58 ^ length input
          + le_val 58 (rev (map (\<lambda>c. the (strchr BASE58_CHARS c)) input))"
  using assms
proof (induction input arbitrary: bn)
  case Nil
  then show ?case by simp
next
  case (Cons c input)
  from Cons.prems(1) obtain pos where pos: "strchr BASE58_CHARS c = Some pos"
    by (cases "strchr BASE58_CHARS c") simp_all
  then have digit: "unat (of_nat pos :: 16 word) = pos" "unat (of_nat pos :: 16 word) \<le> 58"
    using strchr_BASE58_le [OF pos] by (simp_all add: unat_of_nat_digit)
  obtain bn' digit' where carry: "decode_carry (of_nat pos) bn = (bn', digit')"
    by (cases "decode_carry (of_nat pos :: 16 word) bn")
  let ?bn = "if digit' > 0 then bn' @ [digit'] else bn'"
  from Cons.prems(1) have rec: "decode_digits input ?bn = Inr r"
    by (simp add: pos carry)
  note step = decode_step [OF carry digit(2) Cons.prems(2,3)]
  have "\<forall>d\<in>set ?bn. unat d < 256" "normal (map unat ?bn)"
    and v: "le_val 256 (map unat ?bn) = 58 * le_val 256 (map unat bn) + pos"
    using step unfolding digit(1) by blast+
  from Cons.IH [OF rec this(1,2)] show ?case
    by (simp add: v pos le_val_append algebra_simps)
qed

lemma decode_digits_valid:
  "\<forall>c\<in>set input. strchr BASE58_CHARS c \<noteq> None \<Longrightarrow> \<exists>r. decode_digits input bn = Inr r"
proof (induction input arbitrary: bn)
  case Nil
  then show ?case by simp
next
  case (Cons c input)
  then obtain pos where pos: "strchr BASE58_CHARS c = Some pos"
    by auto
  obtain bn' digit' where carry: "decode_carry (of_nat pos) bn = (bn', digit')"
    by (cases "decode_carry (of_nat pos :: 16 word) bn")
  from Cons.IH [of "if digit' > 0 then bn' @ [digit'] else bn'"] Cons.prems
  show ?case
    by (simp add: pos carry)
qed

lemma decode_digits_invalid:
  "\<exists>c\<in>set input. strchr BASE58_CHARS c = None
    \<Longrightarrow> decode_digits input bn = Inl InvalidBase58Character"
proof (induction input arbitrary: bn)
  case Nil
  then show ?case by simp
next
  case (Cons c input)
  show ?case
  proof (cases "strchr BASE58_CHARS c")
    case None
    then show ?thesis by simp
  next
    case (Some pos)
    obtain bn' digit' where carry: "decode_carry (of_nat pos) bn = (bn', digit')"
      by (cases "decode_carry (of_nat pos :: 16 word) bn")
    from Some Cons.prems have "\<exists>c\<in>set input. strchr BASE58_CHARS c = None"
      by auto
    from Cons.IH [OF this] show ?thesis
      by (simp add: Some carry)
  qed
qed

lemma count_zeros_eq:
  "zeros \<le> length input
    \<Longrightarrow> count_zeros input zeros = zeros + length (takeWhile (\<lambda>x. x = 0) (drop zeros input))"
proof (induction input zeros rule: count_zeros.induct)
  case (1 input zeros)
  show ?case
  proof (cases "zeros < length input")
    case False
    then show ?thesis
      by (subst count_zeros.simps) simp
  next
    case True
    then have d: "drop zeros input = input ! zeros # drop (Suc zeros) input"
      by (simp add: Cons_nth_drop_Suc)
    show ?thesis
    proof (cases "input ! zeros = 0")
      case False
      with d show ?thesis
        by (subst count_zeros.simps) simp
    next
      case z: True
      with True "1.IH" have "count_zeros input (Suc zeros)
          = Suc zeros + length (takeWhile (\<lambda>x. x = 0) (drop (Suc zeros) input))"
        by simp
      with True z d show ?thesis
        by (subst count_zeros.simps) simp
    qed
  qed
qed

lemma fill_bytes_fits:
  "pos + length it \<le> length result
    \<Longrightarrow> fill_bytes it pos result
        = (pos + length it, take pos result @ map ucast it @ drop (pos + length it) result)"
proof (induction it arbitrary: pos result)
  case Nil
  then show ?case by simp
next
  case (Cons x it)
  then have "pos < length result" by simp
  then have "take (Suc pos) (result[pos := ucast x]) = take pos result @ [ucast x]"
    by (simp add: take_Suc_conv_app_nth)
  with Cons show ?case
    by simp
qed

lemma replicate_zero_update: "(replicate n (0 :: byte))[pos := 0] = replicate n 0"
  by (cases "pos < n") (auto simp: list_eq_iff_nth_eq nth_list_update)

lemma fz_stop:
  assumes "\<not> (i < length input \<and> input ! i = CHR ''1'' \<and> pos < length result)"
  shows "fill_zeros input i pos result = (pos, result)"
  using assms by (subst fill_zeros.simps) (simp only: if_False)

lemma fz_go:
  assumes "i < length input" "input ! i = CHR ''1''" "pos < length result"
  shows "fill_zeros input i pos result = fill_zeros input (Suc i) (Suc pos) (result[pos := 0])"
  using assms by (subst fill_zeros.simps) (simp only: if_True simp_thms)


lemma fill_zeros_eq:
  "i \<le> length input \<Longrightarrow> pos \<le> n
    \<Longrightarrow> fill_zeros input i pos (replicate n 0)
        = (min n (pos + length (takeWhile (\<lambda>c. c = CHR ''1'') (drop i input))), replicate n 0)"
proof (induction "length input - i" arbitrary: i pos)
  case 0
  then have "drop i input = []" "\<not> i < length input" by simp_all
  with 0 show ?case
    by (simp add: fz_stop)
next
  case (Suc k)
  then have i: "i < length input" by simp
  then have d: "drop i input = input ! i # drop (Suc i) input"
    by (rule Cons_nth_drop_Suc [symmetric])
  show ?case
  proof (cases "input ! i = CHR ''1''")
    case one: True
    show ?thesis
    proof (cases "pos < n")
      case True
      from Suc.hyps(2) i have "k = length input - Suc i" by simp
      from Suc.hyps(1) [OF this, of "Suc pos"] i True
      have "fill_zeros input (Suc i) (Suc pos) (replicate n 0)
          = (min n (Suc pos + length (takeWhile (\<lambda>c. c = CHR ''1'') (drop (Suc i) input))),
             replicate n 0)"
        by simp
      moreover from one i True
      have "fill_zeros input i pos (replicate n 0)
          = fill_zeros input (Suc i) (Suc pos) ((replicate n 0)[pos := 0])"
        by (intro fz_go) simp_all
      ultimately show ?thesis
        by (simp add: replicate_zero_update d one)
    next
      case False
      with Suc.prems(2) have "pos = n" by simp
      then have "fill_zeros input i pos (replicate n 0) = (pos, replicate n 0)"
        by (intro fz_stop) simp
      with \<open>pos = n\<close> show ?thesis by simp
    qed
  next
    case False
    then have "fill_zeros input i pos (replicate n 0) = (pos, replicate n 0)"
      by (intro fz_stop) simp
    with False Suc.prems(2) show ?thesis
      by (simp add: d)
  qed
qed

lemma le_val_zeros: "le_val base (replicate n 0) = 0"
  by (induction n) simp_all

lemma encode_base58_eq:
  "encode_base58 input
    = replicate (length (takeWhile (\<lambda>x. x = 0) input)) (CHR ''1'')
      @ map (\<lambda>d. BASE58_CHARS ! unat d)
          (rev (encode_digits (dropWhile (\<lambda>x. x = 0) input) []))"
  by (simp add: encode_base58_def count_zeros_eq Let_def dropWhile_eq_drop)

lemma takeWhile_replicate_append:
  "takeWhile (\<lambda>c. c = a) (replicate n a @ ys) = replicate n a @ takeWhile (\<lambda>c. c = a) ys"
  by (induction n) simp_all

lemma encode_digits_start:
  fixes input :: "byte list"
  shows "(\<forall>d\<in>set (encode_digits input []). unat d < 58)
    \<and> normal (map unat (encode_digits input []))
    \<and> le_val 58 (map unat (encode_digits input [])) = le_val 256 (rev (map unat input))"
  using encode_digits_spec [of "[]" input] by (simp add: normal_def)

lemma digits_no_leading_one:
  assumes "\<forall>d\<in>set b. unat d < 58" "normal (map unat b)"
  shows "takeWhile (\<lambda>c. c = CHR ''1'') (map (\<lambda>d. BASE58_CHARS ! unat d) (rev b)) = []"
proof (cases "b = []")
  case True
  then show ?thesis by simp
next
  case False
  then obtain xs x where b: "b = xs @ [x]"
    by (meson rev_exhaust)
  from assms(2) have "b = [] \<or> last b \<noteq> 0"
    by (simp only: normal_map_unat)
  with assms(1) have "unat x < 58" "x \<noteq> 0"
    by (simp_all add: b)
  then have "BASE58_CHARS ! unat x \<noteq> CHR ''1''"
    by (simp add: BASE58_nth_one_iff unat_eq_zero)
  then show ?thesis
    by (simp add: b)
qed

lemma leading_ones_encode:
  "length (takeWhile (\<lambda>c. c = CHR ''1'') (encode_base58 input))
    = length (takeWhile (\<lambda>x. x = 0) input)"
proof -
  let ?b = "encode_digits (dropWhile (\<lambda>x. x = 0) input) []"
  have "takeWhile (\<lambda>c. c = CHR ''1'') (map (\<lambda>d. BASE58_CHARS ! unat d) (rev ?b)) = []"
    using encode_digits_start [of "dropWhile (\<lambda>x. x = 0) input"]
    by (intro digits_no_leading_one) simp_all
  then show ?thesis
    by (simp add: encode_base58_eq takeWhile_replicate_append)
qed

lemma map_unat_eq_ucast:
  fixes xs :: "16 word list" and ys :: "byte list"
  assumes "map unat xs = map unat ys"
  shows "map ucast xs = ys"
proof -
  have "ucast x = y" if "unat x = unat y" for x :: "16 word" and y :: byte
  proof -
    have "unat (ucast x :: byte) = unat y"
      using that unat_byte_less [of y] by (simp add: unsigned_ucast_eq take_bit_nat_eq_self)
    then show ?thesis
      by (simp add: word_unat_eq_iff)
  qed
  with assms show ?thesis
    by (induction xs arbitrary: ys) auto
qed

lemma decode_encode:
  fixes B :: "byte list"
  assumes len: "length B = 25"
  shows "decode_base58 (encode_base58 B) = Inr B"
proof -
  define z where "z = length (takeWhile (\<lambda>x. x = 0) B)"
  define rest where "rest = dropWhile (\<lambda>x. x = 0) B"
  define b where "b = encode_digits rest []"
  define s where "s = replicate z (CHR ''1'') @ map (\<lambda>d. BASE58_CHARS ! unat d) (rev b)"
  have s: "encode_base58 B = s"
    by (simp add: encode_base58_eq s_def b_def rest_def z_def)
  have B: "B = replicate z 0 @ rest"
  proof -
    have "takeWhile (\<lambda>x. x = 0) B = replicate z 0"
      unfolding z_def by (induction B) simp_all
    then show ?thesis
      using takeWhile_dropWhile_id [of "\<lambda>x. x = 0" B] by (simp add: rest_def)
  qed
  then have "length B = z + length rest"
    by (simp only: length_append length_replicate)
  with len have zlen: "z + length rest = 25"
    by simp
  have b: "\<forall>d\<in>set b. unat d < 58" "normal (map unat b)"
    "le_val 58 (map unat b) = le_val 256 (rev (map unat rest))"
    using encode_digits_start [of rest] by (simp_all add: b_def)
  have digit: "the (strchr BASE58_CHARS (BASE58_CHARS ! unat d)) = unat d"
    "strchr BASE58_CHARS (BASE58_CHARS ! unat d) \<noteq> None" if "d \<in> set b" for d
    using that b(1) by (simp_all add: strchr_BASE58_nth)
  have one: "strchr BASE58_CHARS (CHR ''1'') = Some 0"
    using strchr_BASE58_nth [of 0] by (simp add: BASE58_one)
  have "\<forall>c\<in>set s. strchr BASE58_CHARS c \<noteq> None"
    using digit(2) one by (auto simp: s_def)
  then obtain bn where bn: "decode_digits s [] = Inr bn"
    using decode_digits_valid by blast
  have digits: "map (\<lambda>c. the (strchr BASE58_CHARS c)) s = replicate z 0 @ map unat (rev b)"
    using digit(1) one by (simp add: s_def)
  from decode_digits_spec [OF bn]
  have bn_props: "\<forall>d\<in>set bn. unat d < 256" "normal (map unat bn)"
    "le_val 256 (map unat bn) = le_val 58 (map unat b)"
    by (simp_all add: normal_def digits le_val_append le_val_zeros rev_map)
  have rest_props: "\<forall>d\<in>set (map unat (rev rest)). d < 256" "normal (map unat (rev rest))"
  proof -
    show "\<forall>d\<in>set (map unat (rev rest)). d < 256"
      by (simp add: unat_byte_less)
    have "rest = [] \<or> hd rest \<noteq> 0"
      unfolding rest_def using hd_dropWhile [of "\<lambda>x. x = 0" B] by blast
    then show "normal (map unat (rev rest))"
      unfolding normal_map_unat by (auto simp: last_rev)
  qed
  have "map unat bn = map unat (rev rest)"
  proof (rule le_val_unique [of 256])
    show "le_val 256 (map unat bn) = le_val 256 (map unat (rev rest))"
      by (simp add: bn_props(3) b(3) rev_map)
  qed (use bn_props rest_props in simp_all)
  then have "map ucast bn = rev rest"
    by (rule map_unat_eq_ucast)
  then have bytes: "map ucast (rev bn) = rest"
    by (simp add: rev_map [symmetric])
  then have "length (map (ucast :: 16 word \<Rightarrow> byte) (rev bn)) = length rest"
    by (rule arg_cong)
  then have bn_len: "length bn = length rest"
    by simp
  have ones: "takeWhile (\<lambda>c. c = CHR ''1'') s = replicate z (CHR ''1'')"
    using digits_no_leading_one [OF b(1,2)] by (simp add: s_def takeWhile_replicate_append)
  have zeros: "fill_zeros s 0 0 (replicate 25 0) = (z, replicate 25 0)"
    using zlen by (simp add: fill_zeros_eq ones)
  have "fill_bytes (rev bn) z (replicate 25 0)
      = (z + length (rev bn),
         take z (replicate 25 0) @ map ucast (rev bn) @ drop (z + length (rev bn)) (replicate 25 0))"
    using zlen bn_len by (intro fill_bytes_fits) simp
  with zlen bn_len bytes have fill: "fill_bytes (rev bn) z (replicate 25 0) = (25, B)"
    using B by (simp add: min_def)
  show ?thesis
    unfolding s using len by (simp add: decode_base58_def bn zeros fill)
qed

lemma decode_base58_invalid_character:
  assumes "c \<in> set input" "c \<notin> set BASE58_CHARS" "c \<noteq> CHR 0x00"
  shows "decode_base58 input = Inl InvalidBase58Character"
proof -
  from assms have "\<exists>c\<in>set input. strchr BASE58_CHARS c = None"
    by (auto simp: strchr_None_iff)
  then have "decode_digits input [] = Inl InvalidBase58Character"
    by (rule decode_digits_invalid)
  then show ?thesis
    by (simp add: decode_base58_def)
qed

subsection \<open>Claims about the codec\<close>

text \<open>
  C2 (round trip): for every 25-byte array \<open>B\<close>, decoding the Base58 encoding of \<open>B\<close>
  returns exactly \<open>B\<close>.
\<close>

theorem base58_round_trip:
  fixes B :: "byte list"
  assumes "length B = 25"
  shows "decode_base58 (encode_base58 B) = Inr B"
  using assms by (rule decode_encode)

theorem base58_round_trip_witness:
  "length [0, 216, 219, 161, 255, 225, 101, 57, 8, 142, 152, 30, 198, 76, 41, 234, 199, 42,
      114, 58, 243, 1, 115, 210, 141 :: byte] = 25
   \<and> decode_base58 (encode_base58 [0, 216, 219, 161, 255, 225, 101, 57, 8, 142, 152, 30, 198,
        76, 41, 234, 199, 42, 114, 58, 243, 1, 115, 210, 141])
     = Inr [0, 216, 219, 161, 255, 225, 101, 57, 8, 142, 152, 30, 198, 76, 41, 234, 199, 42,
        114, 58, 243, 1, 115, 210, 141]"
  using base58_round_trip [of "[0, 216, 219, 161, 255, 225, 101, 57, 8, 142, 152, 30, 198, 76,
    41, 234, 199, 42, 114, 58, 243, 1, 115, 210, 141]"]
  by simp

text \<open>
  C8 (leading zeros): for every byte array \<open>B\<close>, the number of leading \<open>'1'\<close> characters of
  \<open>encode_base58 B\<close> equals the number of leading zero bytes of \<open>B\<close>.
\<close>

theorem base58_leading_ones:
  "length (takeWhile (\<lambda>c. c = CHR ''1'') (encode_base58 B))
    = length (takeWhile (\<lambda>x. x = 0) B)"
  by (rule leading_ones_encode)

text \<open>
  C4 (length check): the claim is that a decode whose reconstructed bytes are not exactly 25
  fails with \<open>InvalidLength\<close> and never truncates. Both copy loops of \<^verbatim>\<open>decode_base58\<close>
  stop at \<^verbatim>\<open>pos < result.size()\<close>, and the final test \<^verbatim>\<open>pos != result.size()\<close> only sees
  inputs that are too short. An input that reconstructs to more than 25 bytes is cut to its
  first 25: here 26 characters \<open>'1'\<close> (26 zero bytes), and the 35-character string that
  reconstructs to 26 bytes, of which the last is dropped.
\<close>

theorem decode_base58_truncates:
  "decode_base58 (replicate 26 (CHR ''1'')) = Inr (replicate 25 0)
   \<and> decode_base58 ''1Lme4nrYHRChHwrpVHJTajEXGQjZv72GySz''
     = Inr [0, 49, 33, 194, 179, 249, 16, 238, 235, 240, 78, 118, 248, 237, 65, 127, 49, 31,
        157, 225, 91, 14, 84, 61, 180]"
  by code_simp

text \<open>
  C5 (alphabet check): the claim is that every input with a character outside the alphabet
  fails with \<open>InvalidBase58Character\<close>. \<^verbatim>\<open>strchr\<close> also finds the terminating NUL of
  \<^verbatim>\<open>BASE58_CHARS\<close>, so a NUL character in the input is taken as the digit 58 instead of
  being rejected (\<open>decode_base58_invalid_character\<close> covers every other character).
\<close>

theorem decode_base58_accepts_nul:
  "CHR 0x00 \<notin> set BASE58_CHARS
   \<and> decode_base58 [CHR 0x00] = Inl InvalidLength
   \<and> decode_base58 (replicate 24 (CHR ''1'') @ [CHR 0x00]) = Inr (replicate 24 0 @ [58])"
  by code_simp

section \<open>Verification of the address\<close>

lemma copy_fits:
  "pos + length src \<le> length result
    \<Longrightarrow> copy src result pos = take pos result @ src @ drop (pos + length src) result"
proof (induction src arbitrary: result pos)
  case Nil
  then show ?case by simp
next
  case (Cons x src)
  then have "pos < length result" by simp
  then have "take (Suc pos) (result[pos := x]) = take pos result @ [x]"
    by (simp add: take_Suc_conv_app_nth)
  with Cons show ?case
    by simp
qed

lemma length_copy: "length (copy src result pos) = length result"
  by (induction src arbitrary: result pos) simp_all

lemma copy_exact: "length src = length result \<Longrightarrow> copy src result 0 = src"
  using copy_fits [of 0 src result] by simp

lemma length_sha256: "length (sha256 lib input) = 32"
  by (simp add: sha256_def length_copy)

lemma length_hash160: "length (hash160 lib input) = 20"
  by (simp add: hash160_def length_copy)

lemma length_hmac_sha512: "length (hmac_sha512 lib key data) = 64"
  by (simp add: hmac_sha512_def length_copy)

lemma get_address_eq:
  "get_address lib key
    = [0x00] @ hash160 lib (public_key key)
      @ take 4 (sha256 lib (sha256 lib ([0x00] @ hash160 lib (public_key key))))"
proof -
  define h160 where "h160 = hash160 lib (public_key key)"
  have h: "length h160 = 20"
    by (simp add: h160_def length_hash160)
  define result where "result = copy h160 ((replicate 25 0)[0 := 0x00]) 1"
  have "result = take 1 ((replicate 25 0)[0 := 0x00]) @ h160
      @ drop (1 + length h160) ((replicate 25 0)[0 := 0x00])"
    unfolding result_def using h by (intro copy_fits) simp
  with h have result: "result = [0x00] @ h160 @ replicate 4 0"
    by (simp add: take_Suc_conv_app_nth)
  define checksum where "checksum = sha256 lib (sha256 lib (take 21 result))"
  have c: "length (take 4 checksum) = 4"
    by (simp add: checksum_def length_sha256)
  have prefix: "take 21 result = [0x00] @ h160"
    using h by (simp add: result)
  have "copy (take 4 checksum) result 21
      = take 21 result @ take 4 checksum @ drop (21 + length (take 4 checksum)) result"
    using c h by (intro copy_fits) (simp add: result)
  with c h prefix have "copy (take 4 checksum) result 21 = [0x00] @ h160 @ take 4 checksum"
    by (simp add: result)
  moreover have "get_address lib key = copy (take 4 checksum) result 21"
    by (simp add: get_address_def Let_def checksum_def result_def h160_def)
  ultimately show ?thesis
    by (simp add: checksum_def prefix h160_def)
qed

lemma copy_nth_before: "i < pos \<Longrightarrow> copy src result pos ! i = result ! i"
  by (induction src arbitrary: result pos) simp_all

lemma get_address_version: "length (get_address lib key) = 25 \<and> get_address lib key ! 0 = 0"
  by (simp add: get_address_def Let_def length_copy copy_nth_before)


section \<open>Verification of the key tree\<close>

subsection \<open>The HMAC input and big-endian bytes\<close>

lemma index_byte:
  fixes index :: "32 word"
  shows "(ucast (drop_bit s index AND 0xFF) :: byte) = of_nat (unat index div 2 ^ s mod 256)"
proof -
  have "unat (drop_bit s index) = unat index div 2 ^ s"
    by (subst unat_drop_bit_eq) (simp add: drop_bit_eq_div)
  then have "unat (drop_bit s index AND 0xFF) = unat index div 2 ^ s mod 256"
    by (simp add: unsigned_and_eq nat_and_255)
  moreover have "unat index div 2 ^ s mod 256 < 256"
    by simp
  ultimately have "unat (ucast (drop_bit s index AND 0xFF) :: byte) = unat index div 2 ^ s mod 256"
    by (simp add: unsigned_ucast_eq take_bit_nat_eq_self)
  moreover have "unat (of_nat (unat index div 2 ^ s mod 256) :: byte) = unat index div 2 ^ s mod 256"
    by (simp add: unat_of_nat)
  ultimately show ?thesis
    by (simp add: word_unat_eq_iff)
qed

lemma be_bytes_4:
  "be_bytes 4 n = [of_nat (n div 256 div 256 div 256 mod 256), of_nat (n div 256 div 256 mod 256),
                   of_nat (n div 256 mod 256), of_nat (n mod 256)]"
proof -
  have four: "(4 :: nat) = Suc (Suc (Suc (Suc 0)))"
    by simp
  show ?thesis
    by (subst four) simp
qed

lemma child_data_eq:
  "child_data key index
    = (if 2 ^ 31 \<le> unat index then [0x00] @ private_key key else public_key key)
      @ be_bytes 4 (unat index)"
proof -
  have "(0x80000000 \<le> index) = (2 ^ 31 \<le> unat index)"
    by (simp add: word_le_nat_alt)
  moreover have "(ucast (index AND 0xFF) :: byte) = of_nat (unat index mod 256)"
    using index_byte [of 0 index] by simp
  moreover have "(ucast (drop_bit 8 index AND 0xFF) :: byte) = of_nat (unat index div 256 mod 256)"
    using index_byte [of 8 index] by simp
  moreover have "(ucast (drop_bit 16 index AND 0xFF) :: byte)
      = of_nat (unat index div 256 div 256 mod 256)"
    using index_byte [of 16 index] by (simp add: div_mult2_eq [symmetric])
  moreover have "(ucast (drop_bit 24 index AND 0xFF) :: byte)
      = of_nat (unat index div 256 div 256 div 256 mod 256)"
    using index_byte [of 24 index] by (simp add: div_mult2_eq [symmetric])
  ultimately show ?thesis
    by (simp add: child_data_def Let_def be_bytes_4)
qed

lemma length_be_bytes: "length (be_bytes k n) = k"
  by (induction k arbitrary: n) simp_all

lemma be_val_snoc: "be_val (bs @ [b]) = unat b + 256 * be_val bs"
  by (simp add: be_val_def)

lemma be_val_be_bytes: "be_val (be_bytes k n) = n mod 256 ^ k"
proof (induction k arbitrary: n)
  case 0
  then show ?case by (simp add: be_val_def)
next
  case (Suc k)
  have "unat (of_nat (n mod 256) :: byte) = n mod 256"
    by (simp add: unat_of_nat)
  with Suc [of "n div 256"] show ?case
    by (simp add: be_val_snoc mod_mult2_eq)
qed

lemma curve_order_less: "curve_order < 256 ^ 32"
  by (simp add: curve_order_def)

subsection \<open>Construction and child derivation\<close>

lemma scalar_tweak_add_Some:
  assumes "scalar_tweak_add scalar tweak = Some child"
  shows "be_val child = (be_val scalar + be_val tweak) mod curve_order \<and> valid_scalar child"
proof -
  let ?s = "(be_val scalar + be_val tweak) mod curve_order"
  from assms have child: "child = be_bytes 32 ?s" and pos: "0 < ?s"
    by (simp_all add: scalar_tweak_add_def Let_def split: if_splits)
  have "0 < curve_order"
    by (simp add: curve_order_def)
  then have "?s < curve_order"
    by simp
  from this curve_order_less have "?s < 256 ^ 32"
    by (rule less_trans)
  then have "be_val child = ?s"
    by (simp add: child be_val_be_bytes)
  with pos \<open>?s < curve_order\<close> show ?thesis
    by (simp add: valid_scalar_def child length_be_bytes)
qed

lemma HDKey_init_Inr:
  assumes "HDKey_init lib private_key' chain_code' = Inr key"
  shows "private_key key = private_key' \<and> chain_code key = chain_code'
    \<and> (\<exists>pubkey. secp256k1_ec_pubkey_create lib private_key' = Some pubkey
          \<and> public_key key = secp256k1_ec_pubkey_serialize lib pubkey
          \<and> length (public_key key) = 33)"
proof -
  from assms obtain pubkey where pubkey: "secp256k1_ec_pubkey_create lib private_key' = Some pubkey"
    by (cases "secp256k1_ec_pubkey_create lib private_key'") (simp_all add: HDKey_init_def)
  let ?serialized = "secp256k1_ec_pubkey_serialize lib pubkey"
  from assms pubkey have len: "length ?serialized = 33"
    by (simp add: HDKey_init_def Let_def split: if_splits)
  then have "copy ?serialized (replicate 33 0) 0 = ?serialized"
    by (intro copy_exact) simp
  with assms pubkey len
  have "key = \<lparr>private_key = private_key', chain_code = chain_code', public_key = ?serialized\<rparr>"
    by (simp add: HDKey_init_def Let_def)
  with pubkey len show ?thesis
    by simp
qed

lemma HDKey_init_not_child_error: "HDKey_init lib private_key' chain_code' \<noteq> Inl InvalidChildKey"
  by (simp add: HDKey_init_def Let_def split: option.splits)

lemma derive_child_Inr:
  assumes "derive_child lib key index = Inr child"
  defines "I \<equiv> hmac_sha512 lib (chain_code key) (child_data key index)"
  shows "secp256k1_ec_seckey_tweak_add lib (private_key key) (take 32 I) = Some (private_key child)
    \<and> chain_code child = drop 32 I
    \<and> (\<exists>pubkey. secp256k1_ec_pubkey_create lib (private_key child) = Some pubkey
          \<and> public_key child = secp256k1_ec_pubkey_serialize lib pubkey
          \<and> length (public_key child) = 33)"
proof -
  from assms(1) obtain k where
    k: "secp256k1_ec_seckey_tweak_add lib (private_key key) (take 32 I) = Some k"
    by (cases "secp256k1_ec_seckey_tweak_add lib (private_key key) (take 32 I)")
      (simp_all add: derive_child_def Let_def I_def)
  with assms(1) obtain child_key where
    init: "HDKey_init lib k (replicate 32 0) = Inr child_key"
    and child: "child = child_key\<lparr>chain_code := drop 32 I\<rparr>"
    by (cases "HDKey_init lib k (replicate 32 0)")
      (simp_all add: derive_child_def Let_def I_def)
  from HDKey_init_Inr [OF init] have "private_key child_key = k"
    "\<exists>pubkey. secp256k1_ec_pubkey_create lib k = Some pubkey
      \<and> public_key child_key = secp256k1_ec_pubkey_serialize lib pubkey
      \<and> length (public_key child_key) = 33"
    by simp_all
  with k child show ?thesis
    by simp
qed

lemma derive_child_InvalidChildKey:
  "derive_child lib key index = Inl InvalidChildKey
    \<longleftrightarrow> secp256k1_ec_seckey_tweak_add lib (private_key key)
          (take 32 (hmac_sha512 lib (chain_code key) (child_data key index))) = None"
proof (cases "secp256k1_ec_seckey_tweak_add lib (private_key key)
    (take 32 (hmac_sha512 lib (chain_code key) (child_data key index)))")
  case None
  then show ?thesis
    by (simp add: derive_child_def Let_def)
next
  case (Some k)
  show ?thesis
  proof (cases "HDKey_init lib k (replicate 32 0)")
    case (Inl e)
    with HDKey_init_not_child_error [of lib k "replicate 32 0"] have "e \<noteq> InvalidChildKey"
      by auto
    with Some Inl show ?thesis
      by (simp add: derive_child_def Let_def)
  next
    case (Inr child_key)
    with Some show ?thesis
      by (simp add: derive_child_def Let_def)
  qed
qed

section \<open>Verification of the path search\<close>

subsection \<open>The loops refine the scan of the candidate list\<close>

lemma derive_path_append:
  "derive_path lib key (xs @ ys)
    = (case derive_path lib key xs of Inl e \<Rightarrow> Inl e | Inr k \<Rightarrow> derive_path lib k ys)"
  by (induction xs arbitrary: key) (simp_all split: sum.splits)

lemma scan_append:
  "scan lib mnemonic target master (xs @ ys) st
    = (case scan lib mnemonic target master xs st of
         (st', Inr False) \<Rightarrow> scan lib mnemonic target master ys st'
       | (st', r) \<Rightarrow> (st', r))"
  by (induction xs arbitrary: st) (simp_all split: sum.splits bool.splits)

lemma hardened_account: "i < 20 \<Longrightarrow> (0x80000000 :: 32 word) OR of_nat i = hardened i"
proof -
  have "list_all (\<lambda>i. (0x80000000 :: 32 word) OR of_nat i = hardened i) [0..<20]"
    by code_simp
  then show "i < 20 \<Longrightarrow> (0x80000000 :: 32 word) OR of_nat i = hardened i"
    by (simp add: list_all_iff)
qed

lemma examine_under_prefix:
  assumes "derive_path lib master path = Inr key"
    and "account = None \<or> (\<exists>i<20. account = Some i)"
  shows "examine lib master target (path, account, j, k)
    = (case derive_path lib key (address_indices (path, account, j, k)) of
         Inl e \<Rightarrow> Inl e
       | Inr address_key \<Rightarrow> Inr (get_address lib address_key = target))"
proof -
  from assms(2) have "full_path (path, account, j, k) = path @ address_indices (path, account, j, k)"
    by (auto simp: hardened_account)
  with assms(1) show ?thesis
    by (simp add: examine_def derive_path_append del: full_path.simps address_indices.simps)
qed

lemma loop_k_scan:
  assumes key: "derive_path lib master path = Inr key"
    and account: "account = (if length path = 0 then None else Some i)" and i: "i < 20"
  shows "k \<le> 20 \<Longrightarrow> loop_k lib mnemonic target path key i j k st
    = scan lib mnemonic target master (map (\<lambda>k. (path, account, j, k)) [k..<20]) st"
proof (induction "20 - k" arbitrary: k st)
  case 0
  then show ?case
    by (subst loop_k.simps) simp
next
  case (Suc n)
  then have k: "k < 20" by simp
  let ?c = "(path, account, j, k)"
  from account i have "account = None \<or> (\<exists>i<20. account = Some i)"
    by auto
  note ex = examine_under_prefix [OF key this, of target j k]
  from k have upt: "[k..<20] = k # [Suc k..<20]"
    by (simp add: upt_conv_Cons)
  from Suc.hyps(2) k have "n = 20 - Suc k" "Suc k \<le> 20"
    by simp_all
  note IH = Suc.hyps(1) [OF this]
  show ?case
  proof (cases "derive_path lib key (address_indices ?c)")
    case (Inl e)
    with k ex show ?thesis
      by (subst loop_k.simps) (simp add: upt account Let_def)
  next
    case (Inr address_key)
    with k ex IH show ?thesis
      by (subst loop_k.simps) (simp add: upt account Let_def)
  qed
qed

lemma loop_j_scan:
  assumes key: "derive_path lib master path = Inr key"
    and account: "account = (if length path = 0 then None else Some i)" and i: "i < 20"
  shows "j \<le> 2 \<Longrightarrow> loop_j lib mnemonic target path key i j st
    = scan lib mnemonic target master
        (concat (map (\<lambda>j. map (\<lambda>k. (path, account, j, k)) [0..<20]) [j..<2])) st"
proof (induction "2 - j" arbitrary: j st)
  case 0
  then show ?case
    by (subst loop_j.simps) simp
next
  case (Suc n)
  then have j: "j < 2" by simp
  then have upt: "[j..<2] = j # [Suc j..<2]"
    by (simp add: upt_conv_Cons)
  from Suc.hyps(2) j have "n = 2 - Suc j" "Suc j \<le> 2"
    by simp_all
  note IH = Suc.hyps(1) [OF this]
  have k: "loop_k lib mnemonic target path key i j 0 st
      = scan lib mnemonic target master (map (\<lambda>k. (path, account, j, k)) [0..<20]) st"
    by (rule loop_k_scan [OF key account i]) simp
  from j show ?case
    by (subst loop_j.simps) (simp add: upt scan_append k IH split: prod.splits sum.splits bool.splits)
qed

lemma loop_i_scan:
  assumes key: "derive_path lib master path = Inr key"
  defines "bound \<equiv> (if length path = 0 then 1 else 20 :: nat)"
  shows "i \<le> bound \<Longrightarrow> loop_i lib mnemonic target path key i st
    = scan lib mnemonic target master
        (concat (map (\<lambda>i. concat (map (\<lambda>j. map (\<lambda>k.
            (path, if length path = 0 then None else Some i, j, k)) [0..<20]) [0..<2]))
          [i..<bound])) st"
proof (induction "bound - i" arbitrary: i st)
  case 0
  then show ?case
    by (subst loop_i.simps) (simp add: bound_def)
next
  case (Suc n)
  then have i: "i < bound" by simp
  then have i20: "i < 20" by (simp add: bound_def split: if_splits)
  from i have upt: "[i..<bound] = i # [Suc i..<bound]"
    by (simp add: upt_conv_Cons)
  from Suc.hyps(2) i have "n = bound - Suc i" "Suc i \<le> bound"
    by simp_all
  note IH = Suc.hyps(1) [OF this]
  have j: "loop_j lib mnemonic target path key i 0 st
      = scan lib mnemonic target master
          (concat (map (\<lambda>j. map (\<lambda>k.
            (path, if length path = 0 then None else Some i, j, k)) [0..<20]) [0..<2])) st"
    by (rule loop_j_scan [OF key refl i20]) simp
  from i have cond: "i < (if length path = 0 then 1 else 20)"
    by (simp add: bound_def)
  show ?case
    by (subst loop_i.simps)
      (simp only: Let_def cond if_True upt j IH scan_append list.map concat.simps
        split: prod.splits sum.splits bool.splits)
qed

lemma loop_i_family:
  assumes "derive_path lib master path = Inr key"
  shows "loop_i lib mnemonic target path key 0 st
    = scan lib mnemonic target master (family path) st"
proof (cases "path = []")
  case True
  with loop_i_scan [OF assms, of 0 mnemonic target st] show ?thesis
    by (simp add: family_def)
next
  case False
  with loop_i_scan [OF assms, of 0 mnemonic target st] show ?thesis
    by (simp add: family_def)
qed

lemma family_first:
  "\<exists>account cs. family path = (path, account, 0, 0) # cs"
  by (simp add: family_def upt_conv_Cons)

lemma examine_prefix_fails:
  assumes "derive_path lib master path = Inl e"
  shows "examine lib master target (path, account, j, k) = Inl e"
  using assms by (simp add: examine_def derive_path_append)

lemma loop_paths_scan:
  "loop_paths lib mnemonic target master ps st
    = scan lib mnemonic target master (concat (map family ps)) st"
proof (induction ps arbitrary: st)
  case Nil
  then show ?case by simp
next
  case (Cons path ps)
  show ?case
  proof (cases "derive_path lib master path")
    case (Inl e)
    obtain account cs where "family path = (path, account, 0, 0) # cs"
      using family_first by blast
    with Inl show ?thesis
      by (simp add: examine_prefix_fails del: scan.simps(2))
        (simp add: examine_prefix_fails)
  next
    case (Inr key)
    then show ?thesis
      by (simp add: loop_i_family scan_append Cons.IH split: prod.splits sum.splits bool.splits)
  qed
qed

lemma paths_families: "concat (map family paths) = candidates"
  by (simp add: paths_def candidates_def hardened_def)

lemma check_seed_phrase_scan:
  assumes "from_seed lib (seed_from_phrase lib mnemonic) = Inr master"
  shows "check_seed_phrase lib mnemonic target
    = scan lib mnemonic target master candidates \<lparr>examined = [], stdout = []\<rparr>"
  using assms by (simp add: check_seed_phrase_def loop_paths_scan paths_families)

lemma length_family: "length (family path) = (if path = [] then 40 else 800)"
  by (simp add: family_def length_concat o_def sum_list_triv)

lemma length_candidates: "length candidates = 2440"
  by (simp add: candidates_def length_family)

subsection \<open>The scan and the order of the candidates\<close>

lemma scan_no_match:
  "\<forall>c\<in>set cs. examine lib master target c = Inr False
    \<Longrightarrow> scan lib mnemonic target master cs st = (st\<lparr>examined := examined st @ cs\<rparr>, Inr False)"
  by (induction cs arbitrary: st) simp_all

lemma scan_first_match:
  assumes n: "n < length cs"
    and before: "\<forall>m<n. examine lib master target (cs ! m) = Inr False"
    and hit: "examine lib master target (cs ! n) = Inr True"
  shows "scan lib mnemonic target master cs st
    = (st\<lparr>examined := examined st @ take (Suc n) cs,
          stdout := stdout st @ [(mnemonic, printed_indices (cs ! n))]\<rparr>, Inr True)"
proof -
  from n have cs: "cs = take n cs @ cs ! n # drop (Suc n) cs"
    by (rule id_take_nth_drop)
  have "\<forall>c\<in>set (take n cs). examine lib master target c = Inr False"
  proof
    fix c
    assume "c \<in> set (take n cs)"
    then obtain m where "m < length (take n cs)" "c = take n cs ! m"
      by (metis in_set_conv_nth)
    with n have "m < n" "c = cs ! m"
      by simp_all
    with before show "examine lib master target c = Inr False"
      by simp
  qed
  then have "scan lib mnemonic target master (take n cs) st
      = (st\<lparr>examined := examined st @ take n cs\<rparr>, Inr False)"
    by (rule scan_no_match)
  moreover have "scan lib mnemonic target master cs st
      = scan lib mnemonic target master (take n cs @ cs ! n # drop (Suc n) cs) st"
    using cs by simp
  ultimately show ?thesis
    using n hit by (simp add: scan_append take_Suc_conv_app_nth)
qed

lemma nth_concat_map_upt:
  assumes len: "\<And>i. length (g i) = m" and r: "r < m"
  shows "i < a \<Longrightarrow> concat (map g [0..<a]) ! (m * i + r) = g i ! r"
proof (induction a)
  case 0
  then show ?case by simp
next
  case (Suc a)
  have total: "length (concat (map g [0..<a])) = m * a"
    by (induction a) (simp_all add: len)
  show ?case
  proof (cases "i < a")
    case True
    then have "Suc i \<le> a" by simp
    then have "m * Suc i \<le> m * a" by (rule mult_le_mono2)
    with r have "m * i + r < m * a" by simp
    with True Suc.IH show ?thesis
      by (simp add: nth_append total)
  next
    case False
    with Suc.prems have "i = a" by simp
    with r show ?thesis
      by (simp add: nth_append total)
  qed
qed

lemma family_nth:
  assumes "path \<noteq> []" "i < 20" "j < 2" "k < 20"
  shows "family path ! (40 * i + 20 * j + k) = (path, Some i, j, k)"
proof -
  let ?inner = "\<lambda>i j. map (\<lambda>k. (path, Some i, j, k)) [0..<20]"
  let ?mid = "\<lambda>i. concat (map (?inner i) [0..<2])"
  have mid_len: "length (?mid i) = 40" for i
    by (simp add: length_concat o_def sum_list_triv)
  from assms(3,4) have "20 * j + k < 40" by simp
  with mid_len assms(2)
  have "concat (map ?mid [0..<20]) ! (40 * i + (20 * j + k)) = ?mid i ! (20 * j + k)"
    by (intro nth_concat_map_upt) simp_all
  also from assms(3,4) have "\<dots> = ?inner i j ! k"
    by (intro nth_concat_map_upt) simp_all
  also from assms(4) have "\<dots> = (path, Some i, j, k)"
    by simp
  finally show ?thesis
    using assms(1) by (simp add: family_def add.assoc)
qed

lemma family_legacy_nth:
  assumes "j < 2" "k < 20"
  shows "family [] ! (20 * j + k) = ([], None, j, k)"
proof -
  let ?inner = "\<lambda>j. map (\<lambda>k. ([] :: 32 word list, None :: nat option, j, k)) [0..<20]"
  from assms have "concat (map ?inner [0..<2]) ! (20 * j + k) = ?inner j ! k"
    by (intro nth_concat_map_upt) simp_all
  with assms(2) show ?thesis
    by (simp add: family_def)
qed

lemma candidates_nth:
  assumes "f < 3" "i < 20" "j < 2" "k < 20"
  shows "candidates ! (800 * f + 40 * i + 20 * j + k)
    = ([hardened ([44, 49, 84] ! f), hardened 0], Some i, j, k)"
proof -
  from assms(2-4) have small: "40 * i + 20 * j + k < 800" by simp
  from assms(1) consider "f = 0" | "f = 1" | "f = 2" by linarith
  then show ?thesis
  proof cases
    case 1
    with small family_nth [of "[hardened 44, hardened 0]" i j k] assms show ?thesis
      by (simp add: candidates_def nth_append length_family add.assoc)
  next
    case 2
    with small family_nth [of "[hardened 49, hardened 0]" i j k] assms show ?thesis
      by (simp add: candidates_def nth_append length_family add.assoc)
  next
    case 3
    with small family_nth [of "[hardened 84, hardened 0]" i j k] assms show ?thesis
      by (simp add: candidates_def nth_append length_family add.assoc)
  qed
qed

lemma candidates_legacy_nth:
  assumes "j < 2" "k < 20"
  shows "candidates ! (2400 + 20 * j + k) = ([], None, j, k)"
  using assms family_legacy_nth [of j k]
  by (simp add: candidates_def nth_append length_family)

subsection \<open>Runs with the toy library\<close>

lemma toy_derive_child_total: "\<exists>child. derive_child toy key index = Inr child"
  by (simp add: derive_child_def HDKey_init_def toy_def Let_def copy_exact)

lemma toy_derive_path_total: "\<exists>k. derive_path toy key path = Inr k"
proof (induction path arbitrary: key)
  case Nil
  then show ?case by simp
next
  case (Cons index path)
  obtain child where "derive_child toy key index = Inr child"
    using toy_derive_child_total by blast
  with Cons [of child] show ?case
    by simp
qed

lemma foreign_version_no_match:
  assumes "target ! 0 \<noteq> 0"
  shows "get_address lib key \<noteq> target"
  using assms get_address_version [of lib key] by auto

lemma toy_examine_foreign_version:
  assumes "target ! 0 \<noteq> 0"
  shows "examine toy master target c = Inr False"
proof -
  obtain k where "derive_path toy master (full_path c) = Inr k"
    using toy_derive_path_total by blast
  with assms show ?thesis
    by (simp add: examine_def foreign_version_no_match)
qed


lemma toy_from_seed: "from_seed toy (seed_from_phrase toy ''abc'') = Inr toy_master"
  by code_simp

subsection \<open>The claim about the search\<close>

text \<open>
  C1 (search order, short circuit, exhaustion): for every mnemonic and target whose master
  node \<^verbatim>\<open>from_seed\<close> constructs, the candidate space has 2440 entries in the order BIP44,
  BIP49, BIP84 (each: accounts 0..19, changes 0..1, address indices 0..19), then legacy
  (changes 0..1, address indices 0..19). If examining every candidate finds no match, the
  search returns failure having examined exactly the 2440 candidates in that order. If the
  candidate at position \<open>n\<close> is the first that matches, the search prints its path and
  returns success having examined exactly the candidates up to position \<open>n\<close>.
\<close>

theorem check_seed_phrase_search:
  assumes "from_seed lib (seed_from_phrase lib mnemonic) = Inr master"
  shows "length candidates = 2440
    \<and> (\<forall>f<3. \<forall>i<20. \<forall>j<2. \<forall>k<20.
          candidates ! (800 * f + 40 * i + 20 * j + k)
            = ([hardened ([44, 49, 84] ! f), hardened 0], Some i, j, k))
    \<and> (\<forall>j<2. \<forall>k<20. candidates ! (2400 + 20 * j + k) = ([], None, j, k))
    \<and> ((\<forall>c\<in>set candidates. examine lib master target c = Inr False)
        \<longrightarrow> check_seed_phrase lib mnemonic target
            = (\<lparr>examined = candidates, stdout = []\<rparr>, Inr False))
    \<and> (\<forall>n<2440. (\<forall>m<n. examine lib master target (candidates ! m) = Inr False)
          \<longrightarrow> examine lib master target (candidates ! n) = Inr True
          \<longrightarrow> check_seed_phrase lib mnemonic target
              = (\<lparr>examined = take (Suc n) candidates,
                  stdout = [(mnemonic, printed_indices (candidates ! n))]\<rparr>, Inr True))"
proof -
  note scan = check_seed_phrase_scan [OF assms, of target]
  have none: "check_seed_phrase lib mnemonic target
      = (\<lparr>examined = candidates, stdout = []\<rparr>, Inr False)"
    if "\<forall>c\<in>set candidates. examine lib master target c = Inr False"
    using scan_no_match [OF that, of mnemonic "\<lparr>examined = [], stdout = []\<rparr>"]
    by (simp add: scan)
  have first: "check_seed_phrase lib mnemonic target
      = (\<lparr>examined = take (Suc n) candidates,
          stdout = [(mnemonic, printed_indices (candidates ! n))]\<rparr>, Inr True)"
    if "n < 2440" "\<forall>m<n. examine lib master target (candidates ! m) = Inr False"
      "examine lib master target (candidates ! n) = Inr True" for n
  proof -
    from that(1) have "n < length candidates"
      by (simp add: length_candidates)
    from scan_first_match [OF this that(2,3), of mnemonic "\<lparr>examined = [], stdout = []\<rparr>"]
    show ?thesis
      by (simp add: scan)
  qed
  from none first show ?thesis
    using length_candidates candidates_nth candidates_legacy_nth by blast
qed

theorem check_seed_phrase_search_witness:
  "from_seed toy (seed_from_phrase toy ''abc'') = Inr toy_master
   \<and> check_seed_phrase toy ''abc'' (replicate 25 255)
       = (\<lparr>examined = candidates, stdout = []\<rparr>, Inr False)
   \<and> check_seed_phrase toy ''abc'' (0 # replicate 19 7 @ [48, 0, 0, 0, 0])
       = (\<lparr>examined = take 2 candidates,
           stdout = [(''abc'', [hardened 44, hardened 0, 0, 0, 1])]\<rparr>, Inr True)"
proof -
  let ?hit = "0 # replicate 19 7 @ [48, 0, 0, 0, 0] :: byte list"
  note search = check_seed_phrase_search [OF toy_from_seed]
  have c0: "candidates ! 0 = ([hardened 44, hardened 0], Some 0, 0, 0)"
    using candidates_nth [of 0 0 0 0] by simp
  have c1: "candidates ! 1 = ([hardened 44, hardened 0], Some 0, 0, 1)"
    using candidates_nth [of 0 0 0 1] by simp
  have none: "\<forall>c\<in>set candidates. examine toy toy_master (replicate 25 255) c = Inr False"
    by (simp add: toy_examine_foreign_version)
  have first: "examine toy toy_master ?hit (candidates ! 0) = Inr False"
    unfolding c0 by code_simp
  have second: "examine toy toy_master ?hit (candidates ! 1) = Inr True"
    unfolding c1 by code_simp
  from first have before: "examine toy toy_master ?hit (candidates ! m) = Inr False"
    if "m < 1" for m
    using that by simp
  have miss: "check_seed_phrase toy ''abc'' (replicate 25 255)
      = (\<lparr>examined = candidates, stdout = []\<rparr>, Inr False)"
    using search [of "replicate 25 255", THEN conjunct2, THEN conjunct2, THEN conjunct2,
      THEN conjunct1] none
    by (rule mp)
  have "(1 :: nat) < 2440"
    by simp
  from search [of ?hit, THEN conjunct2, THEN conjunct2, THEN conjunct2, THEN conjunct2,
    rule_format, OF this before second]
  have hit: "check_seed_phrase toy ''abc'' ?hit
      = (\<lparr>examined = take 2 candidates,
          stdout = [(''abc'', [hardened 44, hardened 0, 0, 0, 1])]\<rparr>, Inr True)"
    using c1 by (simp add: numeral_2_eq_2)
  from toy_from_seed miss hit show ?thesis
    by (intro conjI)
qed

end
